theory Spec2Isabelle
  imports Complex_Main
begin

section \<open>Python values used by \<^verbatim>\<open>main.py\<close>\<close>

text \<open>
  Python integers are unbounded, so they are \<^typ>\<open>int\<close>. Strings are \<^typ>\<open>string\<close>;
  a character outside ASCII is written as its UTF-8 bytes. Exceptions are values of
  \<open>exn\<close>, and a computation that may raise returns \<open>exn + 'a\<close> with \<open>Inl\<close> for the
  exception.
\<close>

datatype exn =
    RequestException   \<comment> \<open>\<^verbatim>\<open>requests.get(...)\<close> or \<^verbatim>\<open>.json()\<close> raised\<close>
  | KeyError           \<comment> \<open>a dictionary was read at a key it does not hold\<close>
  | ValueError         \<comment> \<open>\<^verbatim>\<open>ThreadPoolExecutor(max_workers=k)\<close> with \<open>k \<le> 0\<close>\<close>
  | AttributeError     \<comment> \<open>\<^verbatim>\<open>story.get\<close> on a value that is not a dictionary\<close>

text \<open>\<^verbatim>\<open>str(i)\<close> for an integer: decimal digits, with a minus sign when negative.\<close>

definition digit_char :: "nat \<Rightarrow> char" where
  "digit_char d = ''0123456789'' ! d"

function str_nat :: "nat \<Rightarrow> string" where
  "str_nat k = (if k < 10 then [digit_char k] else str_nat (k div 10) @ [digit_char (k mod 10)])"
  by pat_completeness auto
termination
  by (relation "measure id") auto

definition py_str :: "int \<Rightarrow> string" where
  "py_str i = (if i < 0 then CHR ''-'' # str_nat (nat (- i)) else str_nat (nat i))"

text \<open>
  \<^verbatim>\<open>xs[lo:hi]\<close> with integer bounds: a negative bound counts from the end, and both
  bounds are clamped to the list, so a slice never raises.
\<close>

definition slice_bound :: "nat \<Rightarrow> int \<Rightarrow> nat" where
  "slice_bound len b = (if b < 0 then nat (max (b + int len) 0) else min (nat b) len)"

definition py_slice :: "'a list \<Rightarrow> int \<Rightarrow> int \<Rightarrow> 'a list" where
  "py_slice xs lo hi =
     (let l = slice_bound (length xs) lo; h = slice_bound (length xs) hi
      in take (h - l) (drop l xs))"

text \<open>\<^verbatim>\<open>enumerate(xs, start)\<close>.\<close>

fun enumerate_from :: "int \<Rightarrow> 'a list \<Rightarrow> (int \<times> 'a) list" where
  "enumerate_from s [] = []"
| "enumerate_from s (x # xs) = (s, x) # enumerate_from (s + 1) xs"

text \<open>
  \<^verbatim>\<open>d.get(key) or default\<close> on a string field: the default is taken when the field is
  absent (or null) and also when it is the empty string, which Python counts as false.
\<close>

definition get_or :: "string option \<Rightarrow> string \<Rightarrow> string" where
  "get_or field dflt = (case field of None \<Rightarrow> dflt | Some s \<Rightarrow> (if s = [] then dflt else s))"

section \<open>The environment: network, clock and scheduler\<close>

text \<open>
  A story as the item endpoint returns it: a JSON object whose fields \<open>title\<close> and
  \<open>url\<close> are strings when present; \<open>None\<close> stands for an absent (or null) field.
\<close>

record story =
  title :: "string option"
  url :: "string option"

text \<open>
  What \<^verbatim>\<open>.json()\<close> gives for an item: a JSON object, or some other JSON value
  (\<^verbatim>\<open>null\<close>, a number, a string, a list), which has no method \<^verbatim>\<open>get\<close>.
\<close>

datatype item_json = Object story | NotObject

text \<open>
  Everything the run reads from outside is a field of \<open>env\<close>:
  \<^item> \<open>listing_of u\<close>: what \<^verbatim>\<open>requests.get(u, timeout=10).json()\<close> gives for a listing URL;
  \<^item> \<open>item_of t i\<close>: what the request of task number \<open>t\<close> for story \<open>i\<close> gives
    (two requests for one id may be answered differently);
  \<^item> \<open>clock k\<close>: the value of the \<open>k\<close>-th call of \<^verbatim>\<open>time.time()\<close>;
  \<^item> \<open>admitted\<close>: the order in which the worker threads acquire the limiter's lock;
  \<^item> \<open>completed\<close>: the order in which \<^verbatim>\<open>as_completed\<close> yields the futures.
  Tasks (futures) are numbered from 0 in submission order.
\<close>

record env =
  listing_of :: "string \<Rightarrow> exn + int list"
  item_of :: "nat \<Rightarrow> int \<Rightarrow> exn + item_json"
  clock :: "nat \<Rightarrow> real"
  admitted :: "nat list"
  completed :: "nat list"

text \<open>
  The effects of a run, in order, and the mutable state they act on: the limiter's cell
  \<^verbatim>\<open>last_time[0]\<close> and the number of clock readings taken so far.
\<close>

datatype effect = HttpGet string | Sleep real

record world =
  last_time :: real
  reads :: nat
  trace :: "effect list"

definition requests_get :: "string \<Rightarrow> world \<Rightarrow> world" where
  "requests_get u w = w\<lparr>trace := trace w @ [HttpGet u]\<rparr>"

definition time_time :: "env \<Rightarrow> world \<Rightarrow> real \<times> world" where
  "time_time e w = (clock e (reads w), w\<lparr>reads := Suc (reads w)\<rparr>)"

definition time_sleep :: "real \<Rightarrow> world \<Rightarrow> world" where
  "time_sleep d w = w\<lparr>trace := trace w @ [Sleep d]\<rparr>"

section \<open>The rate limiter\<close>

text \<open>
  \<^verbatim>\<open>rate_limit(calls_per_sec)\<close> fixes \<open>interval = 1.0 / calls_per_sec\<close> and starts
  \<^verbatim>\<open>last_time\<close> at \<open>0.0\<close>. \<open>wrapper_gate\<close> is the block under \<^verbatim>\<open>with lock\<close>; the lock
  makes it atomic, so it is one step on the world. Time is read from the environment's
  clock, and Python's doubles are taken as real numbers.
\<close>

definition rate_limit_interval :: "real \<Rightarrow> real" where
  "rate_limit_interval calls_per_sec = 1 / calls_per_sec"

definition wrapper_gate :: "env \<Rightarrow> real \<Rightarrow> world \<Rightarrow> world" where
  "wrapper_gate e interval w =
     (let (now, w1) = time_time e w;
          elapsed = now - last_time w1;
          wait = interval - elapsed;
          w2 = (if wait > 0 then time_sleep wait w1 else w1);
          (t, w3) = time_time e w2
      in w3\<lparr>last_time := t\<rparr>)"

section \<open>Fetching the stories\<close>

definition BASE :: string where
  "BASE = ''https://hacker-news.firebaseio.com/v0''"

definition STORIES :: "string \<Rightarrow> string" where
  "STORIES mode = BASE @ ''/'' @ mode @ ''stories.json''"

definition ITEM :: "int \<Rightarrow> string" where
  "ITEM i = BASE @ ''/item/'' @ py_str i @ ''.json''"

text \<open>
  \<^verbatim>\<open>get_article_by_id\<close> under \<^verbatim>\<open>@rate_limit(10)\<close>: the gate, then the request. Its
  result is the environment's answer for that task.
\<close>

definition get_article_by_id :: "env \<Rightarrow> int \<Rightarrow> world \<Rightarrow> world" where
  "get_article_by_id e i w = requests_get (ITEM i) (wrapper_gate e (rate_limit_interval 10) w)"

text \<open>
  A table cell is a plain string or a \<^verbatim>\<open>rich.text.Text\<close> with a style. A row is the
  triple passed to \<^verbatim>\<open>table.add_row\<close>.
\<close>

datatype cell = Plain string | Styled string string

type_synonym row = "string \<times> cell \<times> cell"

record table =
  columns :: "string list"
  rows :: "row list"

record report =
  shown :: table              \<comment> \<open>what \<^verbatim>\<open>console.print(table)\<close> prints\<close>
  progress_total :: nat       \<comment> \<open>\<open>total\<close> of the progress bar\<close>
  progress_ticks :: nat       \<comment> \<open>how often the progress bar advanced\<close>
  pool_size :: int            \<comment> \<open>\<open>max_workers\<close> of the thread pool\<close>

text \<open>The empty table with its three columns.\<close>

definition new_table :: table where
  "new_table = \<lparr>columns = [''No.'', ''Title'', ''URL''], rows = []\<rparr>"

definition sob :: string where
  "sob = [CHR 0xF0, CHR 0x9F, CHR 0x98, CHR 0xAD]"

definition failed_row :: "int \<Rightarrow> row" where
  "failed_row index = (py_str index, Plain ''<RATE LIMITED>'', Plain sob)"

definition story_row :: "int \<Rightarrow> int \<Rightarrow> story \<Rightarrow> row" where
  "story_row index i s =
     (let title = get_or (title s) ''<no title>'';
          url = get_or (url s) (''https://news.ycombinator.com/item?id='' @ py_str i)
      in (py_str index, Styled title ''bold yellow'', Styled url ''blue underline''))"

text \<open>
  The body of the loop for one completed future: the \<^verbatim>\<open>except\<close> branch gives the
  placeholder row; the \<^verbatim>\<open>else\<close> branch is outside the \<^verbatim>\<open>try\<close>, so the
  \<^verbatim>\<open>AttributeError\<close> of \<^verbatim>\<open>story.get\<close> on a value that is not an object leaves the
  loop.
\<close>

definition post_row :: "int \<Rightarrow> int \<Rightarrow> exn + item_json \<Rightarrow> exn + row" where
  "post_row index i r =
     (case r of
        Inl exc \<Rightarrow> Inr (failed_row index)
      | Inr NotObject \<Rightarrow> Inl AttributeError
      | Inr (Object s) \<Rightarrow> Inr (story_row index i s))"

text \<open>\<^verbatim>\<open>id_to_index = { id : i for i, id in enumerate(ids, start) }\<close>: a later pair
  overwrites an earlier one with the same key.\<close>

definition id_to_index :: "int list \<Rightarrow> int \<Rightarrow> (int \<rightharpoonup> int)" where
  "id_to_index ids start = foldl (\<lambda>m (i, k). m(k \<mapsto> i)) Map.empty (enumerate_from start ids)"

text \<open>\<^verbatim>\<open>future_to_id\<close>: task number \<open>t\<close> is the future of the \<open>t\<close>-th id.\<close>

definition future_to_id :: "int list \<Rightarrow> (nat \<rightharpoonup> int)" where
  "future_to_id ids = map_of (zip [0..<length ids] ids)"

text \<open>The worker threads: every submitted task passes the gate and sends its request,
  in the order the scheduler admits them.\<close>

fun run_tasks :: "env \<Rightarrow> (nat \<rightharpoonup> int) \<Rightarrow> nat list \<Rightarrow> world \<Rightarrow> world" where
  "run_tasks e f2i [] w = w"
| "run_tasks e f2i (t # ts) w =
     (case f2i t of
        None \<Rightarrow> run_tasks e f2i ts w
      | Some i \<Rightarrow> run_tasks e f2i ts (get_article_by_id e i w))"

text \<open>The loop over \<^verbatim>\<open>as_completed(future_to_id)\<close>, filling \<^verbatim>\<open>id_to_post\<close>.\<close>

fun collect :: "env \<Rightarrow> (nat \<rightharpoonup> int) \<Rightarrow> (int \<rightharpoonup> int) \<Rightarrow> nat list \<Rightarrow> (int \<rightharpoonup> row) \<Rightarrow> exn + (int \<rightharpoonup> row)" where
  "collect e f2i i2x [] post = Inr post"
| "collect e f2i i2x (t # ts) post =
     (case f2i t of
        None \<Rightarrow> Inl KeyError
      | Some i \<Rightarrow>
          (case i2x i of
             None \<Rightarrow> Inl KeyError
           | Some index \<Rightarrow>
               (case post_row index i (item_of e t i) of
                  Inl x \<Rightarrow> Inl x
                | Inr r \<Rightarrow> collect e f2i i2x ts (post(i \<mapsto> r)))))"

text \<open>The loop \<^verbatim>\<open>for id in ids: table.add_row(*id_to_post[id])\<close>.\<close>

fun add_rows :: "(int \<rightharpoonup> row) \<Rightarrow> int list \<Rightarrow> exn + row list" where
  "add_rows post [] = Inr []"
| "add_rows post (i # is) =
     (case post i of
        None \<Rightarrow> Inl KeyError
      | Some r \<Rightarrow> (case add_rows post is of Inl x \<Rightarrow> Inl x | Inr rs \<Rightarrow> Inr (r # rs)))"

definition resolve_ids :: "env \<Rightarrow> string \<Rightarrow> int \<Rightarrow> int \<Rightarrow> world \<Rightarrow> (exn + int list) \<times> world" where
  "resolve_ids e mode n start w =
     (case listing_of e (STORIES mode) of
        Inl x \<Rightarrow> (Inl x, requests_get (STORIES mode) w)
      | Inr listing \<Rightarrow> (Inr (py_slice listing (start - 1) (start - 1 + n)), requests_get (STORIES mode) w))"

definition new_limiter :: world where
  "new_limiter = \<lparr>last_time = 0, reads = 0, trace = []\<rparr>"

definition get_stories :: "env \<Rightarrow> string \<Rightarrow> int \<Rightarrow> int \<Rightarrow> int \<Rightarrow> (exn + report) \<times> world" where
  "get_stories e mode n max_workers start =
     (case resolve_ids e mode n start new_limiter of
        (Inl x, w) \<Rightarrow> (Inl x, w)
      | (Inr ids, w) \<Rightarrow>
          (let total_posts = length ids;
               i2x = id_to_index ids start;
               workers = max max_workers n
           in if workers \<le> 0 then (Inl ValueError, w)
              else
                (let f2i = future_to_id ids;
                     w' = run_tasks e f2i (admitted e) w
                 in case collect e f2i i2x (completed e) Map.empty of
                      Inl x \<Rightarrow> (Inl x, w')
                    | Inr post \<Rightarrow>
                        (case add_rows post ids of
                           Inl x \<Rightarrow> (Inl x, w')
                         | Inr rs \<Rightarrow>
                             (Inr \<lparr>shown = new_table\<lparr>rows := rs\<rparr>,
                                   progress_total = total_posts,
                                   progress_ticks = length (completed e),
                                   pool_size = workers\<rparr>, w')))))"

section \<open>The command line\<close>

definition MODE_LIMITS :: "(string \<times> int) list" where
  "MODE_LIMITS =
     [(''top'', 500), (''new'', 500), (''best'', 500),
      (''ask'', 200), (''show'', 200), (''job'', 200)]"

text \<open>The parsed arguments: \<^verbatim>\<open>--mode\<close>, \<^verbatim>\<open>--start\<close>, \<^verbatim>\<open>--num\<close>.\<close>

record args =
  arg_mode :: string
  arg_start :: int
  arg_num :: int

text \<open>
  How the process ends: \<^verbatim>\<open>parser.error(msg)\<close> prints the usage and the message and
  exits with status 2; an exception that nothing catches ends the process with status 1;
  otherwise the table is printed and the status is 0. \<open>main\<close> returns how the process
  ends together with the effects it had.
\<close>

datatype outcome = UsageError string | Uncaught exn | Printed report

fun exit_status :: "outcome \<Rightarrow> int" where
  "exit_status (UsageError msg) = 2"
| "exit_status (Uncaught x) = 1"
| "exit_status (Printed r) = 0"

text \<open>
  The checks of \<^verbatim>\<open>main\<close> in the order of the source; the first is the one
  \<^verbatim>\<open>parse_args\<close> makes for \<^verbatim>\<open>choices=list(MODE_LIMITS.keys())\<close>. The result is the
  message of the first check that fails.
\<close>

definition validate :: "args \<Rightarrow> string option" where
  "validate a =
     (case map_of MODE_LIMITS (arg_mode a) of
        None \<Rightarrow> Some (''argument -m/--mode: invalid choice: '' @ arg_mode a)
      | Some limit \<Rightarrow>
          if arg_start a < 1 then Some ''--start/-s must be at least 1.''
          else if arg_num a < 1 then Some ''--num/-n must be at least 1.''
          else if arg_start a + arg_num a - 1 > limit then
            Some (''The sum of start and num minus 1 (index of furthest post) must not exceed ''
                  @ py_str limit @ '', the Hacker News API limit.'')
          else None)"

definition main :: "env \<Rightarrow> args \<Rightarrow> outcome \<times> effect list" where
  "main e a =
     (case validate a of
        Some msg \<Rightarrow> (UsageError msg, [])
      | None \<Rightarrow>
          (case get_stories e (arg_mode a) (arg_num a) 10 (arg_start a) of
             (Inl x, w) \<Rightarrow> (Uncaught x, trace w)
           | (Inr r, w) \<Rightarrow> (Printed r, trace w)))"


section \<open>Observations and the scheduler's guarantee\<close>

text \<open>The URLs requested, in the order of the trace.\<close>

fun http_requests :: "effect list \<Rightarrow> string list" where
  "http_requests [] = []"
| "http_requests (HttpGet u # es) = u # http_requests es"
| "http_requests (Sleep d # es) = http_requests es"

text \<open>
  The thread pool runs every submitted task, and \<^verbatim>\<open>as_completed\<close> yields every future
  exactly once: of \<open>k\<close> tasks, an order lists each of \<open>0, \<dots>, k - 1\<close> once.
\<close>

definition each_once :: "nat \<Rightarrow> nat list \<Rightarrow> bool" where
  "each_once k order = (sort order = [0..<k])"

text \<open>
  The item endpoint's schema: every fetch of the window that returns at all returns a
  JSON object.
\<close>

definition answers_are_objects :: "env \<Rightarrow> int list \<Rightarrow> bool" where
  "answers_are_objects e ids = (\<forall>t\<in>set [0..<length ids]. item_of e t (ids ! t) \<noteq> Inr NotObject)"

text \<open>The time a trace asks to sleep, in total.\<close>

fun slept :: "effect list \<Rightarrow> real" where
  "slept [] = 0"
| "slept (Sleep d # es) = d + slept es"
| "slept (HttpGet u # es) = slept es"

text \<open>
  What the limiter relies on at a world \<open>w\<close> in which a caller enters the gate: the
  second clock reading of the gate is no earlier than the first plus the time the gate
  asked to sleep in between (\<^verbatim>\<open>time.sleep\<close> does not return early, and the clock does
  not run backwards).
\<close>

definition clock_honours_sleep :: "env \<Rightarrow> real \<Rightarrow> world \<Rightarrow> bool" where
  "clock_honours_sleep e interval w =
     (clock e (reads w) + (slept (trace (wrapper_gate e interval w)) - slept (trace w))
        \<le> clock e (Suc (reads w)))"

text \<open>
  The worlds in which the admitted tasks of a run enter the gate, one after the other
  (the lock admits one caller at a time), and the time stamps the gate leaves in
  \<open>last_time\<close>: the admission times.
\<close>

fun gate_worlds :: "env \<Rightarrow> (nat \<rightharpoonup> int) \<Rightarrow> nat list \<Rightarrow> world \<Rightarrow> world list" where
  "gate_worlds e f2i [] w = []"
| "gate_worlds e f2i (t # ts) w =
     (case f2i t of
        None \<Rightarrow> gate_worlds e f2i ts w
      | Some i \<Rightarrow> w # gate_worlds e f2i ts (get_article_by_id e i w))"

definition admissions :: "env \<Rightarrow> (nat \<rightharpoonup> int) \<Rightarrow> nat list \<Rightarrow> world \<Rightarrow> real list" where
  "admissions e f2i order w =
     map (\<lambda>v. last_time (wrapper_gate e (rate_limit_interval 10) v)) (gate_worlds e f2i order w)"

text \<open>Consecutive time stamps are at least \<open>interval\<close> apart.\<close>

fun spaced :: "real \<Rightarrow> real list \<Rightarrow> bool" where
  "spaced interval (a # b # ts) = (a + interval \<le> b \<and> spaced interval (b # ts))"
| "spaced interval ts = True"

section \<open>Example environments\<close>

text \<open>
  The listing \<open>[101, 102, 103]\<close>, where the fetch of 102 fails; the workers are admitted
  and complete out of submission order.
\<close>

definition demo_env :: env where
  "demo_env =
     \<lparr>listing_of = (\<lambda>u. Inr [101, 102, 103]),
      item_of = (\<lambda>t i. if i = 102 then Inl RequestException
                         else Inr (Object \<lparr>title = Some ''Story'', url = None\<rparr>)),
      clock = (\<lambda>k. 1000 + real k / 100),
      admitted = [2, 0, 1],
      completed = [1, 2, 0]\<rparr>"

text \<open>
  A listing that names story 7 twice; the first request for it fails and the second
  succeeds.
\<close>

definition dup_env :: env where
  "dup_env =
     \<lparr>listing_of = (\<lambda>u. Inr [7, 8, 7]),
      item_of = (\<lambda>t i. if t = 0 then Inl RequestException
                         else Inr (Object \<lparr>title = Some ''Story'', url = None\<rparr>)),
      clock = (\<lambda>k. 1000 + real k / 100),
      admitted = [0, 1, 2],
      completed = [0, 1, 2]\<rparr>"

text \<open>The listing \<open>[101, 102, 103]\<close>, where the answer for 102 is JSON \<^verbatim>\<open>null\<close>.\<close>

definition null_env :: env where
  "null_env =
     \<lparr>listing_of = (\<lambda>u. Inr [101, 102, 103]),
      item_of = (\<lambda>t i. if i = 102 then Inr NotObject
                         else Inr (Object \<lparr>title = Some ''Story'', url = None\<rparr>)),
      clock = (\<lambda>k. 1000 + real k / 100),
      admitted = [0, 1, 2],
      completed = [0, 1, 2]\<rparr>"

text \<open>
  A clock that honours the sleeps of a limiter at 10 calls per second: the callers arrive
  0.09 s after the last admission, and the sleep of 0.01 s ends on time.
\<close>

definition steady_env :: env where
  "steady_env =
     \<lparr>listing_of = (\<lambda>u. Inr [101, 102, 103]),
      item_of = (\<lambda>t i. Inr (Object \<lparr>title = Some ''Story'', url = None\<rparr>)),
      clock = (\<lambda>k. 1000 + real (k div 2) / 10 + real (k mod 2) / 100),
      admitted = [2, 0, 1],
      completed = [1, 2, 0]\<rparr>"

text \<open>The arguments \<^verbatim>\<open>--mode top --start 1 --num 3\<close>.\<close>

definition demo_args :: args where
  "demo_args = \<lparr>arg_mode = ''top'', arg_start = 1, arg_num = 3\<rparr>"

section \<open>Facts about the Python values\<close>

lemma digit_char_inj: "a < 10 \<Longrightarrow> b < 10 \<Longrightarrow> digit_char a = digit_char b \<Longrightarrow> a = b"
proof -
  assume a: "a < 10" and b: "b < 10" and eq: "digit_char a = digit_char b"
  have d: "distinct ''0123456789''" by simp
  have l: "length ''0123456789'' = 10" by simp
  from eq have "''0123456789'' ! a = ''0123456789'' ! b" by (simp only: digit_char_def)
  with d a b l show "a = b" by (simp only: nth_eq_iff_index_eq)
qed

lemma digit_char_not_minus: "d < 10 \<Longrightarrow> digit_char d \<noteq> CHR ''-''"
proof -
  assume "d < 10"
  then have "digit_char d \<in> set ''0123456789''"
    unfolding digit_char_def by (intro nth_mem) simp
  then show ?thesis by auto
qed

declare str_nat.simps [simp del]

lemma str_nat_small: "k < 10 \<Longrightarrow> str_nat k = [digit_char k]"
  by (subst str_nat.simps) simp

lemma str_nat_big: "\<not> k < 10 \<Longrightarrow> str_nat k = str_nat (k div 10) @ [digit_char (k mod 10)]"
  by (subst str_nat.simps) simp

lemma str_nat_nonempty: "str_nat k \<noteq> []" "[] \<noteq> str_nat k"
  by (cases "k < 10"; simp add: str_nat_small str_nat_big)+

lemma str_nat_hd_not_minus: "hd (str_nat k) \<noteq> CHR ''-''"
proof (induction k rule: str_nat.induct)
  case (1 k)
  show ?case
  proof (cases "k < 10")
    case True
    then show ?thesis by (simp add: str_nat_small digit_char_not_minus)
  next
    case False
    with 1 show ?thesis by (simp add: str_nat_big str_nat_nonempty)
  qed
qed

lemma str_nat_inj: "str_nat a = str_nat b \<Longrightarrow> a = b"
proof (induction a arbitrary: b rule: str_nat.induct)
  case (1 k)
  show ?case
  proof (cases "k < 10")
    case ksmall: True
    show ?thesis
    proof (cases "b < 10")
      case True
      with ksmall 1(2) show ?thesis
        by (simp add: str_nat_small digit_char_inj)
    next
      case False
      with ksmall 1(2) show ?thesis
        by (simp add: str_nat_small str_nat_big str_nat_nonempty)
    qed
  next
    case kbig: False
    show ?thesis
    proof (cases "b < 10")
      case True
      with kbig 1(2) show ?thesis
        by (simp add: str_nat_small str_nat_big str_nat_nonempty)
    next
      case False
      with kbig 1(2) have "str_nat (k div 10) = str_nat (b div 10)"
        and dd: "digit_char (k mod 10) = digit_char (b mod 10)"
        by (simp_all add: str_nat_big)
      with kbig 1(1) have q: "k div 10 = b div 10" by blast
      from dd have r: "k mod 10 = b mod 10" by (intro digit_char_inj) simp_all
      from q r show ?thesis by (metis div_mult_mod_eq)
    qed
  qed
qed

lemma py_str_inj: "py_str a = py_str b \<Longrightarrow> a = b"
proof -
  assume eq: "py_str a = py_str b"
  have neg_pos: False if "x < 0" "\<not> y < 0" "py_str x = py_str y" for x y
  proof -
    from that have "CHR ''-'' # str_nat (nat (- x)) = str_nat (nat y)" by (simp add: py_str_def)
    then have "hd (str_nat (nat y)) = CHR ''-''" by (metis list.sel(1))
    with str_nat_hd_not_minus show False by blast
  qed
  show "a = b"
  proof (cases "a < 0"; cases "b < 0")
    assume "a < 0" "b < 0"
    with eq have "nat (- a) = nat (- b)" by (simp add: py_str_def str_nat_inj)
    with \<open>a < 0\<close> \<open>b < 0\<close> show ?thesis by simp
  next
    assume "a < 0" "\<not> b < 0"
    with eq neg_pos show ?thesis by blast
  next
    assume "\<not> a < 0" "b < 0"
    with eq neg_pos [of b a] show ?thesis by simp
  next
    assume "\<not> a < 0" "\<not> b < 0"
    with eq have "nat a = nat b" by (simp add: py_str_def str_nat_inj)
    with \<open>\<not> a < 0\<close> \<open>\<not> b < 0\<close> show ?thesis by simp
  qed
qed

lemma future_to_id_nth: "future_to_id ids t = (if t < length ids then Some (ids ! t) else None)"
proof (cases "t < length ids")
  case True
  have "map_of (zip [0..<length ids] ids) ([0..<length ids] ! t) = Some (ids ! t)"
    using True by (intro map_of_zip_nth) simp_all
  with True show ?thesis by (simp add: future_to_id_def)
next
  case False
  have "map_of (zip [0..<length ids] ids) t = None"
    using False by (subst map_of_zip_is_None) simp_all
  with False show ?thesis by (simp add: future_to_id_def)
qed

lemma index_fold_mono:
  "k \<in> set xs \<or> m k \<noteq> None \<Longrightarrow> foldl (\<lambda>m (i, k). m(k \<mapsto> i)) m (enumerate_from s xs) k \<noteq> None"
  by (induction xs arbitrary: m s) auto

lemma index_fold_notin:
  "k \<notin> set xs \<Longrightarrow> foldl (\<lambda>m (i, k). m(k \<mapsto> i)) m (enumerate_from s xs) k = m k"
  by (induction xs arbitrary: m s) auto

lemma index_fold_last:
  "p < length xs \<Longrightarrow> (\<forall>q. p < q \<and> q < length xs \<longrightarrow> xs ! q \<noteq> xs ! p) \<Longrightarrow>
   foldl (\<lambda>m (i, k). m(k \<mapsto> i)) m (enumerate_from s xs) (xs ! p) = Some (s + int p)"
proof (induction xs arbitrary: m s p)
  case Nil
  then show ?case by simp
next
  case (Cons x xs)
  show ?case
  proof (cases p)
    case 0
    have "x \<notin> set xs"
    proof
      assume "x \<in> set xs"
      then obtain q where "q < length xs" "xs ! q = x" by (auto simp: in_set_conv_nth)
      with Cons.prems(2) 0 show False by (auto dest: spec [of _ "Suc q"])
    qed
    then have "foldl (\<lambda>m (i, k). m(k \<mapsto> i)) (m(x \<mapsto> s)) (enumerate_from (s + 1) xs) x = (m(x \<mapsto> s)) x"
      by (rule index_fold_notin)
    with 0 show ?thesis by (simp del: fun_upd_apply) simp
  next
    case (Suc p')
    with Cons.prems have a: "p' < length xs" by simp
    have b: "\<forall>q. p' < q \<and> q < length xs \<longrightarrow> xs ! q \<noteq> xs ! p'"
    proof (intro allI impI)
      fix q assume "p' < q \<and> q < length xs"
      with Cons.prems(2) Suc show "xs ! q \<noteq> xs ! p'" by (auto dest: spec [of _ "Suc q"])
    qed
    from Cons.IH [OF a b] Suc show ?thesis by simp
  qed
qed

lemma id_to_index_last:
  "p < length ids \<Longrightarrow> (\<forall>q. p < q \<and> q < length ids \<longrightarrow> ids ! q \<noteq> ids ! p) \<Longrightarrow>
   id_to_index ids s0 (ids ! p) = Some (s0 + int p)"
  unfolding id_to_index_def by (rule index_fold_last)

lemma id_to_index_defined: "k \<in> set ids \<Longrightarrow> id_to_index ids s0 k \<noteq> None"
  unfolding id_to_index_def by (rule index_fold_mono) simp

lemma id_to_index_distinct:
  "distinct ids \<Longrightarrow> p < length ids \<Longrightarrow> id_to_index ids s0 (ids ! p) = Some (s0 + int p)"
  by (rule id_to_index_last) (auto simp: nth_eq_iff_index_eq)


lemma last_occurrence:
  "k \<in> set xs \<Longrightarrow> \<exists>l<length xs. xs ! l = k \<and> (\<forall>r. l < r \<and> r < length xs \<longrightarrow> xs ! r \<noteq> k)"
proof (induction xs)
  case Nil
  then show ?case by simp
next
  case (Cons x xs)
  show ?case
  proof (cases "k \<in> set xs")
    case True
    with Cons.IH obtain l where l: "l < length xs" "xs ! l = k"
      and last: "\<And>r. l < r \<Longrightarrow> r < length xs \<Longrightarrow> xs ! r \<noteq> k" by blast
    have "(x # xs) ! r \<noteq> k" if "Suc l < r" "r < length (x # xs)" for r
    proof -
      from that obtain r' where r': "r = Suc r'" using not0_implies_Suc by fastforce
      with that have "l < r'" "r' < length xs" by simp_all
      then have "xs ! r' \<noteq> k" by (rule last)
      with r' show ?thesis by simp
    qed
    moreover have "Suc l < length (x # xs)" "(x # xs) ! Suc l = k" using l by simp_all
    ultimately show ?thesis by blast
  next
    case False
    with Cons.prems have kx: "k = x" by simp
    have "(x # xs) ! r \<noteq> k" if "0 < r" "r < length (x # xs)" for r
    proof -
      from that obtain r' where r': "r = Suc r'" using not0_implies_Suc by fastforce
      with that have "r' < length xs" by simp
      then have "xs ! r' \<in> set xs" by (rule nth_mem)
      with False have "xs ! r' \<noteq> k" by metis
      with r' show ?thesis by simp
    qed
    moreover have "0 < length (x # xs)" "(x # xs) ! 0 = k" using kx by simp_all
    ultimately show ?thesis by blast
  qed
qed

lemma id_to_index_value:
  assumes "k \<in> set ids"
  shows "\<exists>l<length ids. ids ! l = k \<and> (\<forall>r. l < r \<and> r < length ids \<longrightarrow> ids ! r \<noteq> k)
           \<and> id_to_index ids s0 k = Some (s0 + int l)"
proof -
  from last_occurrence [OF assms] obtain l where
    all: "l < length ids \<and> ids ! l = k \<and> (\<forall>r. l < r \<and> r < length ids \<longrightarrow> ids ! r \<noteq> k)" ..
  then have l: "l < length ids" "ids ! l = k"
    and last: "\<forall>r. l < r \<and> r < length ids \<longrightarrow> ids ! r \<noteq> k" by simp_all
  from last l(2) have "\<forall>r. l < r \<and> r < length ids \<longrightarrow> ids ! r \<noteq> ids ! l" by simp
  with l(1) have "id_to_index ids s0 (ids ! l) = Some (s0 + int l)" by (rule id_to_index_last)
  with l(2) have "id_to_index ids s0 k = Some (s0 + int l)" by simp
  with all show ?thesis by (intro exI [of _ l]) simp
qed

lemma answers_are_objects_iff:
  "answers_are_objects e ids \<longleftrightarrow> (\<forall>t<length ids. item_of e t (ids ! t) \<noteq> Inr NotObject)"
  by (auto simp: answers_are_objects_def)

lemma post_row_ok:
  assumes "r \<noteq> Inr NotObject"
  obtains row where "post_row index i r = Inr row"
proof (cases r)
  case (Inl x)
  then have "post_row index i r = Inr (failed_row index)" by (simp add: post_row_def)
  then show ?thesis by (rule that)
next
  case (Inr j)
  with assms obtain s where "j = Object s" by (cases j) simp_all
  with Inr have "post_row index i r = Inr (story_row index i s)" by (simp add: post_row_def)
  then show ?thesis by (rule that)
qed

lemma collect_Cons:
  "f2i t = Some i \<Longrightarrow> i2x i = Some index \<Longrightarrow> post_row index i (item_of e t i) = Inr r \<Longrightarrow>
   collect e f2i i2x (t # ts) post = collect e f2i i2x ts (post(i \<mapsto> r))"
  by simp

lemma collect_Cons_abort:
  "f2i t = Some i \<Longrightarrow> i2x i = Some index \<Longrightarrow> post_row index i (item_of e t i) = Inl x \<Longrightarrow>
   collect e f2i i2x (t # ts) post = Inl x"
  by simp

lemma post_row_error: "post_row index i r = Inl x \<Longrightarrow> x = AttributeError \<and> r = Inr NotObject"
  by (simp add: post_row_def split: sum.splits item_json.splits)

lemma post_row_rank: "post_row index i r = Inr row \<Longrightarrow> fst row = py_str index"
  by (auto simp: post_row_def failed_row_def story_row_def Let_def split: sum.splits item_json.splits)

lemma collect_step:
  assumes "collect e f2i i2x (u # us) post = Inr post'"
  obtains i index r where "f2i u = Some i" and "i2x i = Some index"
    and "post_row index i (item_of e u i) = Inr r"
    and "collect e f2i i2x us (post(i \<mapsto> r)) = Inr post'"
proof -
  from assms obtain i where i: "f2i u = Some i" by (cases "f2i u") simp_all
  from assms i obtain index where x: "i2x i = Some index" by (cases "i2x i") simp_all
  from assms i x obtain r where r: "post_row index i (item_of e u i) = Inr r"
    by (cases "post_row index i (item_of e u i)") simp_all
  from assms i x r have "collect e f2i i2x us (post(i \<mapsto> r)) = Inr post'" by simp
  with i x r show ?thesis by (rule that)
qed

lemma collect_ok:
  "\<forall>t\<in>set order. t < length ids \<and> item_of e t (ids ! t) \<noteq> Inr NotObject \<Longrightarrow>
   \<exists>post'. collect e (future_to_id ids) (id_to_index ids s0) order post = Inr post'"
proof (induction order arbitrary: post)
  case Nil
  then show ?case by simp
next
  case (Cons t ts)
  then have t: "t < length ids" and o: "item_of e t (ids ! t) \<noteq> Inr NotObject" by simp_all
  from t have "ids ! t \<in> set ids" by simp
  then obtain index where x: "id_to_index ids s0 (ids ! t) = Some index"
    using id_to_index_defined by blast
  from o obtain r where r: "post_row index (ids ! t) (item_of e t (ids ! t)) = Inr r"
    by (rule post_row_ok)
  from t have f: "future_to_id ids t = Some (ids ! t)" by (simp add: future_to_id_nth)
  from Cons.prems have "\<forall>t\<in>set ts. t < length ids \<and> item_of e t (ids ! t) \<noteq> Inr NotObject" by simp
  from Cons.IH [OF this, of "post(ids ! t \<mapsto> r)"] show ?case
    by (simp only: collect_Cons [where ?f2i = "future_to_id ids" and ?i2x = "id_to_index ids s0", OF f x r])
qed

lemma collect_aborts:
  "\<forall>t\<in>set order. t < length ids \<Longrightarrow>
   \<exists>t\<in>set order. item_of e t (ids ! t) = Inr NotObject \<Longrightarrow>
   collect e (future_to_id ids) (id_to_index ids s0) order post = Inl AttributeError"
proof (induction order arbitrary: post)
  case Nil
  then show ?case by simp
next
  case (Cons t ts)
  then have t: "t < length ids" by simp
  from t have "ids ! t \<in> set ids" by simp
  then obtain index where x: "id_to_index ids s0 (ids ! t) = Some index"
    using id_to_index_defined by blast
  from t have f: "future_to_id ids t = Some (ids ! t)" by (simp add: future_to_id_nth)
  show ?case
  proof (cases "post_row index (ids ! t) (item_of e t (ids ! t))")
    case (Inl y)
    then have "y = AttributeError" by (simp add: post_row_error)
    with Inl show ?thesis by (simp only: collect_Cons_abort [where ?f2i = "future_to_id ids" and ?i2x = "id_to_index ids s0", OF f x Inl])
  next
    case (Inr r)
    then have "item_of e t (ids ! t) \<noteq> Inr NotObject" by (auto simp: post_row_def)
    with Cons.prems(2) have b: "\<exists>t\<in>set ts. item_of e t (ids ! t) = Inr NotObject" by auto
    from Cons.prems(1) have a: "\<forall>t\<in>set ts. t < length ids" by simp
    from Cons.IH [OF a b, of "post(ids ! t \<mapsto> r)"] show ?thesis
      by (simp only: collect_Cons [where ?f2i = "future_to_id ids" and ?i2x = "id_to_index ids s0", OF f x Inr])
  qed
qed

lemma collect_keeps:
  "collect e f2i i2x order post = Inr post' \<Longrightarrow> k \<in> dom post \<Longrightarrow> k \<in> dom post'"
proof (induction order arbitrary: post)
  case Nil
  then show ?case by simp
next
  case (Cons u us)
  from Cons.prems(1) obtain i index r where "f2i u = Some i" and "i2x i = Some index"
    and "post_row index i (item_of e u i) = Inr r"
    and rest: "collect e f2i i2x us (post(i \<mapsto> r)) = Inr post'"
    by (rule collect_step)
  from Cons.prems(2) have "k \<in> dom (post(i \<mapsto> r))" by simp
  with Cons.IH rest show ?case by blast
qed

lemma collect_untouched:
  "collect e f2i i2x order post = Inr post' \<Longrightarrow> \<forall>u\<in>set order. f2i u \<noteq> Some k \<Longrightarrow> post' k = post k"
proof (induction order arbitrary: post)
  case Nil
  then show ?case by simp
next
  case (Cons u us)
  from Cons.prems(1) obtain i index r where u: "f2i u = Some i" and "i2x i = Some index"
    and "post_row index i (item_of e u i) = Inr r"
    and rest: "collect e f2i i2x us (post(i \<mapsto> r)) = Inr post'"
    by (rule collect_step)
  from Cons.prems(2) u have ne: "i \<noteq> k" by auto
  from Cons.prems(2) have "\<forall>u\<in>set us. f2i u \<noteq> Some k" by simp
  with Cons.IH rest have "post' k = (post(i \<mapsto> r)) k" by blast
  with ne show ?case by simp
qed

lemma collect_last:
  assumes "collect e f2i i2x (xs @ t # ys) post = Inr post'"
    and "f2i t = Some k"
    and "\<forall>u\<in>set ys. f2i u \<noteq> Some k"
  shows "\<exists>index r. i2x k = Some index \<and> post_row index k (item_of e t k) = Inr r \<and> post' k = Some r"
  using assms
proof (induction xs arbitrary: post)
  case Nil
  from Nil.prems(1) have c: "collect e f2i i2x (t # ys) post = Inr post'" by simp
  from c obtain i index r where u: "f2i t = Some i" and x: "i2x i = Some index"
    and row: "post_row index i (item_of e t i) = Inr r"
    and rest: "collect e f2i i2x ys (post(i \<mapsto> r)) = Inr post'"
    by (rule collect_step)
  from u Nil.prems(2) have ik: "i = k" by simp
  from rest Nil.prems(3) have "post' k = (post(i \<mapsto> r)) k" by (rule collect_untouched)
  with ik have "post' k = Some r" by simp
  with x row ik show ?case by (intro exI [of _ index] exI [of _ r]) simp
next
  case (Cons a xs)
  from Cons.prems(1) have c: "collect e f2i i2x (a # (xs @ t # ys)) post = Inr post'" by simp
  from c obtain i index r where "f2i a = Some i" and "i2x i = Some index"
    and "post_row index i (item_of e a i) = Inr r"
    and rest: "collect e f2i i2x (xs @ t # ys) (post(i \<mapsto> r)) = Inr post'"
    by (rule collect_step)
  from Cons.IH [OF rest Cons.prems(2) Cons.prems(3)] show ?case .
qed

lemma collect_covers:
  "collect e (future_to_id ids) i2x order post = Inr post' \<Longrightarrow> t \<in> set order \<Longrightarrow> t < length ids \<Longrightarrow>
   ids ! t \<in> dom post'"
proof (induction order arbitrary: post)
  case Nil
  then show ?case by simp
next
  case (Cons u us)
  from Cons.prems(1) obtain i index r where
    u: "future_to_id ids u = Some i" and x: "i2x i = Some index"
    and "post_row index i (item_of e u i) = Inr r"
    and rest: "collect e (future_to_id ids) i2x us (post(i \<mapsto> r)) = Inr post'"
    by (rule collect_step)
  show ?case
  proof (cases "t = u")
    case True
    with u Cons.prems(3) have "i = ids ! t" by (simp add: future_to_id_nth)
    then have "ids ! t \<in> dom (post(i \<mapsto> r))" by simp
    with rest show ?thesis by (rule collect_keeps)
  next
    case False
    with Cons.prems(2) have "t \<in> set us" by simp
    with Cons.IH rest Cons.prems(3) show ?thesis by blast
  qed
qed

lemma collect_rows:
  "collect e (future_to_id ids) i2x order post = Inr post' \<Longrightarrow>
   (\<forall>k r. post k = Some r \<longrightarrow> (\<exists>t index. t < length ids \<and> ids ! t = k \<and> i2x k = Some index \<and> post_row index k (item_of e t k) = Inr r)) \<Longrightarrow>
   post' k = Some r \<Longrightarrow>
   \<exists>t index. t < length ids \<and> ids ! t = k \<and> i2x k = Some index \<and> post_row index k (item_of e t k) = Inr r"
proof (induction order arbitrary: post)
  case Nil
  from Nil.prems(1) have "post = post'" by simp
  with Nil.prems(2,3) show ?case by blast
next
  case (Cons u us)
  from Cons.prems(1) obtain i index r' where
    u: "future_to_id ids u = Some i" and x: "i2x i = Some index"
    and row: "post_row index i (item_of e u i) = Inr r'"
    and rest: "collect e (future_to_id ids) i2x us (post(i \<mapsto> r')) = Inr post'"
    by (rule collect_step)
  from u have ul: "u < length ids" and ui: "ids ! u = i"
    by (auto simp: future_to_id_nth split: if_splits)
  have "\<forall>k r. (post(i \<mapsto> r')) k = Some r \<longrightarrow>
     (\<exists>t index. t < length ids \<and> ids ! t = k \<and> i2x k = Some index \<and> post_row index k (item_of e t k) = Inr r)"
    using Cons.prems(2) ul ui x row by auto
  from Cons.IH [OF rest this Cons.prems(3)] show ?case .
qed

lemma add_rows_ok:
  "set ks \<subseteq> dom post \<Longrightarrow> add_rows post ks = Inr (map (\<lambda>k. the (post k)) ks)"
  by (induction ks) auto

lemma each_once_set: "each_once k order \<Longrightarrow> set order = {0..<k}"
  unfolding each_once_def by (metis set_sort set_upt)

lemma each_once_length: "each_once k order \<Longrightarrow> length order = k"
  unfolding each_once_def by (metis length_sort length_upt diff_zero)


section \<open>Facts about the effects of a run\<close>

lemma http_requests_append: "http_requests (xs @ ys) = http_requests xs @ http_requests ys"
  by (induction xs rule: http_requests.induct) simp_all

lemma wrapper_gate_reads: "reads (wrapper_gate e iv w) = reads w + 2"
  by (simp add: wrapper_gate_def time_time_def time_sleep_def Let_def)

lemma wrapper_gate_last_time: "last_time (wrapper_gate e iv w) = clock e (Suc (reads w))"
  by (simp add: wrapper_gate_def time_time_def time_sleep_def Let_def)

lemma wrapper_gate_requests: "http_requests (trace (wrapper_gate e iv w)) = http_requests (trace w)"
  by (simp add: wrapper_gate_def time_time_def time_sleep_def Let_def http_requests_append)

lemma get_article_reads: "reads (get_article_by_id e i w) = reads w + 2"
  by (simp add: get_article_by_id_def requests_get_def wrapper_gate_reads)

lemma get_article_last_time: "last_time (get_article_by_id e i w) = clock e (Suc (reads w))"
  by (simp add: get_article_by_id_def requests_get_def wrapper_gate_last_time)

lemma get_article_requests:
  "http_requests (trace (get_article_by_id e i w)) = http_requests (trace w) @ [ITEM i]"
  by (simp add: get_article_by_id_def requests_get_def wrapper_gate_requests http_requests_append)

lemma run_tasks_requests:
  "\<forall>t\<in>set order. t < length ids \<Longrightarrow>
   http_requests (trace (run_tasks e (future_to_id ids) order w)) =
   http_requests (trace w) @ map (\<lambda>t. ITEM (ids ! t)) order"
  by (induction order arbitrary: w) (simp_all add: future_to_id_nth get_article_requests)

lemma run_tasks_reads:
  "reads (run_tasks e f2i order w) + 2 * length (http_requests (trace w)) =
   reads w + 2 * length (http_requests (trace (run_tasks e f2i order w)))"
proof (induction order arbitrary: w)
  case Nil
  show ?case by simp
next
  case (Cons t ts)
  show ?case
  proof (cases "f2i t")
    case None
    with Cons show ?thesis by simp
  next
    case (Some i)
    from Cons [of "get_article_by_id e i w"] Some show ?thesis
      by (simp add: get_article_reads get_article_requests)
  qed
qed

lemma py_slice_window:
  "1 \<le> s0 \<Longrightarrow> 0 \<le> n \<Longrightarrow> py_slice xs (s0 - 1) (s0 - 1 + n) = take (nat n) (drop (nat (s0 - 1)) xs)"
  by (auto simp: py_slice_def slice_bound_def Let_def min_def nat_add_distrib)

lemma get_stories_run:
  assumes L: "listing_of e (STORIES mode) = Inr listing"
    and I: "ids = py_slice listing (s0 - 1) (s0 - 1 + n)"
    and W: "0 < max mw n"
    and C: "each_once (length ids) (completed e)"
    and O: "answers_are_objects e ids"
  obtains post where
    "collect e (future_to_id ids) (id_to_index ids s0) (completed e) Map.empty = Inr post"
    and "set ids \<subseteq> dom post"
    and "get_stories e mode n mw s0 =
           (Inr \<lparr>shown = new_table\<lparr>rows := map (\<lambda>k. the (post k)) ids\<rparr>,
                 progress_total = length ids, progress_ticks = length ids, pool_size = max mw n\<rparr>,
            run_tasks e (future_to_id ids) (admitted e) (requests_get (STORIES mode) new_limiter))"
proof -
  from C have cs: "set (completed e) = {0..<length ids}" by (rule each_once_set)
  from C have cl: "length (completed e) = length ids" by (rule each_once_length)
  from cs O have "\<forall>t\<in>set (completed e). t < length ids \<and> item_of e t (ids ! t) \<noteq> Inr NotObject"
    by (simp add: answers_are_objects_iff)
  then obtain post where
    p: "collect e (future_to_id ids) (id_to_index ids s0) (completed e) Map.empty = Inr post"
    using collect_ok by blast
  have d: "set ids \<subseteq> dom post"
  proof
    fix k assume "k \<in> set ids"
    then obtain t where "t < length ids" "ids ! t = k" by (auto simp: in_set_conv_nth)
    with cs collect_covers [OF p, of t] show "k \<in> dom post" by simp
  qed
  from d have a: "add_rows post ids = Inr (map (\<lambda>k. the (post k)) ids)" by (rule add_rows_ok)
  from W have nw: "\<not> max mw n \<le> 0" by linarith
  have "get_stories e mode n mw s0 =
           (Inr \<lparr>shown = new_table\<lparr>rows := map (\<lambda>k. the (post k)) ids\<rparr>,
                 progress_total = length ids, progress_ticks = length ids, pool_size = max mw n\<rparr>,
            run_tasks e (future_to_id ids) (admitted e) (requests_get (STORIES mode) new_limiter))"
    unfolding get_stories_def resolve_ids_def
    using L I [symmetric] p a cl nw by (simp add: Let_def)
  with p d show ?thesis by (rule that)
qed

lemma get_stories_rows:
  assumes L: "listing_of e (STORIES mode) = Inr listing"
    and I: "ids = py_slice listing (s0 - 1) (s0 - 1 + n)"
    and W: "0 < max mw n"
    and C: "each_once (length ids) (completed e)"
    and O: "answers_are_objects e ids"
  obtains rep where
    "get_stories e mode n mw s0 =
       (Inr rep, run_tasks e (future_to_id ids) (admitted e) (requests_get (STORIES mode) new_limiter))"
    and "length (rows (shown rep)) = length ids"
    and "progress_total rep = length ids"
    and "progress_ticks rep = length ids"
    and "\<forall>p<length ids. \<exists>t index. t < length ids \<and> ids ! t = ids ! p
                \<and> id_to_index ids s0 (ids ! p) = Some index
                \<and> post_row index (ids ! p) (item_of e t (ids ! p)) = Inr (rows (shown rep) ! p)"
    and "\<forall>p<length ids. \<forall>q<length ids. ids ! p = ids ! q \<longrightarrow>
                rows (shown rep) ! p = rows (shown rep) ! q"
proof -
  let ?w = "run_tasks e (future_to_id ids) (admitted e) (requests_get (STORIES mode) new_limiter)"
  from L I W C O obtain post where
    p: "collect e (future_to_id ids) (id_to_index ids s0) (completed e) Map.empty = Inr post"
    and d: "set ids \<subseteq> dom post"
    and g: "get_stories e mode n mw s0 =
           (Inr \<lparr>shown = new_table\<lparr>rows := map (\<lambda>k. the (post k)) ids\<rparr>,
                 progress_total = length ids, progress_ticks = length ids, pool_size = max mw n\<rparr>, ?w)"
    by (rule get_stories_run)
  define rep where "rep = \<lparr>shown = new_table\<lparr>rows := map (\<lambda>k. the (post k)) ids\<rparr>,
             progress_total = length ids, progress_ticks = length ids, pool_size = max mw n\<rparr>"
  have rws: "rows (shown rep) = map (\<lambda>k. the (post k)) ids" by (simp add: rep_def)
  have g': "get_stories e mode n mw s0 = (Inr rep, ?w)" unfolding rep_def by (rule g)
  have r: "\<exists>t index. t < length ids \<and> ids ! t = ids ! p
                \<and> id_to_index ids s0 (ids ! p) = Some index
                \<and> post_row index (ids ! p) (item_of e t (ids ! p)) = Inr (rows (shown rep) ! p)"
    if "p < length ids" for p
  proof -
    from that have "ids ! p \<in> set ids" by (rule nth_mem)
    with d have "ids ! p \<in> dom post" by (rule subsetD)
    then obtain r where pr: "post (ids ! p) = Some r" using domD by blast
    have "\<exists>t index. t < length ids \<and> ids ! t = ids ! p \<and> id_to_index ids s0 (ids ! p) = Some index
        \<and> post_row index (ids ! p) (item_of e t (ids ! p)) = Inr r"
      by (rule collect_rows [OF p _ pr]) simp
    moreover from that pr have "rows (shown rep) ! p = r" by (simp only: rws nth_map option.sel)
    ultimately show ?thesis by (simp only:)
  qed
  have s: "rows (shown rep) ! p = rows (shown rep) ! q"
    if "p < length ids" "q < length ids" "ids ! p = ids ! q" for p q
    using that by (simp only: rws nth_map)
  have l: "length (rows (shown rep)) = length ids" by (simp only: rws length_map)
  have t: "progress_total rep = length ids" "progress_ticks rep = length ids"
    by (simp_all add: rep_def)
  from r have r': "\<forall>p<length ids. \<exists>t index. t < length ids \<and> ids ! t = ids ! p
                \<and> id_to_index ids s0 (ids ! p) = Some index
                \<and> post_row index (ids ! p) (item_of e t (ids ! p)) = Inr (rows (shown rep) ! p)"
    by (intro allI impI)
  from s have s': "\<forall>p<length ids. \<forall>q<length ids. ids ! p = ids ! q \<longrightarrow>
                rows (shown rep) ! p = rows (shown rep) ! q"
    by (intro allI impI)
  from g' l t r' s' show ?thesis by (rule that)
qed

lemma get_stories_aborts:
  assumes L: "listing_of e (STORIES mode) = Inr listing"
    and I: "ids = py_slice listing (s0 - 1) (s0 - 1 + n)"
    and W: "0 < max mw n"
    and C: "each_once (length ids) (completed e)"
    and N: "\<not> answers_are_objects e ids"
  shows "fst (get_stories e mode n mw s0) = Inl AttributeError"
proof -
  from C have cs: "set (completed e) = {0..<length ids}" by (rule each_once_set)
  then have a: "\<forall>t\<in>set (completed e). t < length ids" by simp
  from N obtain t where "t < length ids" "item_of e t (ids ! t) = Inr NotObject"
    by (auto simp: answers_are_objects_iff)
  with cs have b: "\<exists>t\<in>set (completed e). item_of e t (ids ! t) = Inr NotObject" by auto
  from a b have c: "collect e (future_to_id ids) (id_to_index ids s0) (completed e) Map.empty = Inl AttributeError"
    by (rule collect_aborts)
  from W have nw: "\<not> max mw n \<le> 0" by linarith
  show ?thesis
    unfolding get_stories_def resolve_ids_def
    using L I [symmetric] c nw by (simp add: Let_def)
qed

lemma wrapper_gate_extends: "\<exists>more. trace (wrapper_gate e iv w) = trace w @ more"
  by (simp add: wrapper_gate_def time_time_def time_sleep_def Let_def)

lemma run_tasks_extends: "\<exists>more. trace (run_tasks e f2i order w) = trace w @ more"
proof (induction order arbitrary: w)
  case Nil
  show ?case by simp
next
  case (Cons t ts)
  show ?case
  proof (cases "f2i t")
    case None
    with Cons show ?thesis by simp
  next
    case (Some i)
    obtain m1 where "trace (wrapper_gate e (rate_limit_interval 10) w) = trace w @ m1"
      using wrapper_gate_extends by blast
    then have "trace (get_article_by_id e i w) = trace w @ (m1 @ [HttpGet (ITEM i)])"
      by (simp add: get_article_by_id_def requests_get_def)
    moreover obtain m2 where
      "trace (run_tasks e f2i ts (get_article_by_id e i w)) = trace (get_article_by_id e i w) @ m2"
      using Cons by blast
    ultimately show ?thesis using Some by simp
  qed
qed

lemma get_stories_world:
  "snd (get_stories e mode n mw s0) = requests_get (STORIES mode) new_limiter \<or>
   (\<exists>f2i. snd (get_stories e mode n mw s0) = run_tasks e f2i (admitted e) (requests_get (STORIES mode) new_limiter))"
  by (auto simp: get_stories_def resolve_ids_def Let_def split: sum.splits)

lemma slice_short:
  assumes "1 \<le> s0" and "1 \<le> n" and "int (length listing) < s0 - 1 + n"
  shows "py_slice listing (s0 - 1) (s0 - 1 + n) = drop (nat (s0 - 1)) listing"
proof -
  from assms have "py_slice listing (s0 - 1) (s0 - 1 + n) = take (nat n) (drop (nat (s0 - 1)) listing)"
    by (intro py_slice_window) simp_all
  moreover from assms have "length (drop (nat (s0 - 1)) listing) \<le> nat n" by simp
  ultimately show ?thesis by simp
qed

lemma get_stories_listing_fails:
  "listing_of e (STORIES mode) = Inl x \<Longrightarrow> fst (get_stories e mode n mw s0) = Inl x"
  by (simp add: get_stories_def resolve_ids_def)

lemma get_stories_no_workers:
  "listing_of e (STORIES mode) = Inr listing \<Longrightarrow> max mw n \<le> 0 \<Longrightarrow>
   fst (get_stories e mode n mw s0) = Inl ValueError"
  by (simp add: get_stories_def resolve_ids_def Let_def)

lemma collect_fixed_api:
  assumes p: "collect e (future_to_id ids) i2x order Map.empty = Inr post"
    and api: "\<And>t i. item_of e t i = api i"
    and k: "post k = Some r"
  shows "\<exists>index. i2x k = Some index \<and> post_row index k (api k) = Inr r"
proof -
  have "\<exists>t index. t < length ids \<and> ids ! t = k \<and> i2x k = Some index \<and> post_row index k (item_of e t k) = Inr r"
    by (rule collect_rows [OF p _ k]) simp
  then obtain t index where "i2x k = Some index" "post_row index k (item_of e t k) = Inr r"
    by (elim exE conjE)
  with api show ?thesis by simp
qed

lemma validate_ok:
  assumes "validate a = None"
  shows "1 \<le> arg_start a" and "1 \<le> arg_num a"
  using assms by (auto simp: validate_def split: option.splits if_splits)

lemma main_printed:
  assumes "validate a = None"
    and "get_stories e (arg_mode a) (arg_num a) 10 (arg_start a) = (Inr rep, w)"
  shows "main e a = (Printed rep, trace w)"
  using assms by (simp add: main_def)

lemma slice_full:
  assumes "1 \<le> s0" and "1 \<le> n" and "s0 - 1 + n \<le> int (length listing)"
  shows "py_slice listing (s0 - 1) (s0 - 1 + n) = take (nat n) (drop (nat (s0 - 1)) listing)"
    and "length (py_slice listing (s0 - 1) (s0 - 1 + n)) = nat n"
proof -
  from assms show a: "py_slice listing (s0 - 1) (s0 - 1 + n) = take (nat n) (drop (nat (s0 - 1)) listing)"
    by (intro py_slice_window) simp_all
  from assms have "nat n \<le> length listing - nat (s0 - 1)" by linarith
  with a show "length (py_slice listing (s0 - 1) (s0 - 1 + n)) = nat n" by simp
qed

lemma get_stories_post:
  assumes L: "listing_of e (STORIES mode) = Inr listing"
    and I: "ids = py_slice listing (s0 - 1) (s0 - 1 + n)"
    and W: "0 < max mw n"
    and C: "each_once (length ids) (completed e)"
    and O: "answers_are_objects e ids"
  obtains rep post where
    "get_stories e mode n mw s0 =
       (Inr rep, run_tasks e (future_to_id ids) (admitted e) (requests_get (STORIES mode) new_limiter))"
    and "collect e (future_to_id ids) (id_to_index ids s0) (completed e) Map.empty = Inr post"
    and "set ids \<subseteq> dom post"
    and "rows (shown rep) = map (\<lambda>k. the (post k)) ids"
proof -
  from L I W C O obtain post where
    p: "collect e (future_to_id ids) (id_to_index ids s0) (completed e) Map.empty = Inr post"
    and d: "set ids \<subseteq> dom post"
    and g: "get_stories e mode n mw s0 =
           (Inr \<lparr>shown = new_table\<lparr>rows := map (\<lambda>k. the (post k)) ids\<rparr>,
                 progress_total = length ids, progress_ticks = length ids, pool_size = max mw n\<rparr>,
            run_tasks e (future_to_id ids) (admitted e) (requests_get (STORIES mode) new_limiter))"
    by (rule get_stories_run)
  define rep where "rep = \<lparr>shown = new_table\<lparr>rows := map (\<lambda>k. the (post k)) ids\<rparr>,
             progress_total = length ids, progress_ticks = length ids, pool_size = max mw n\<rparr>"
  have rws: "rows (shown rep) = map (\<lambda>k. the (post k)) ids" by (simp add: rep_def)
  from g have "get_stories e mode n mw s0 =
       (Inr rep, run_tasks e (future_to_id ids) (admitted e) (requests_get (STORIES mode) new_limiter))"
    unfolding rep_def .
  from this p d rws show ?thesis by (rule that)
qed

lemma rank_shown:
  assumes p: "collect e (future_to_id ids) (id_to_index ids s0) order Map.empty = Inr post"
    and k: "post k = Some r"
  shows "\<exists>l<length ids. ids ! l = k \<and> (\<forall>q. l < q \<and> q < length ids \<longrightarrow> ids ! q \<noteq> k)
           \<and> fst r = py_str (s0 + int l)"
proof -
  have "\<exists>t index. t < length ids \<and> ids ! t = k \<and> id_to_index ids s0 k = Some index
      \<and> post_row index k (item_of e t k) = Inr r"
    by (rule collect_rows [OF p _ k]) simp
  then obtain t index where t: "t < length ids" "ids ! t = k"
    and x: "id_to_index ids s0 k = Some index"
    and row: "post_row index k (item_of e t k) = Inr r"
    by (elim exE conjE)
  from t have "k \<in> set ids" by auto
  from id_to_index_value [OF this, of s0] obtain l where
    v: "l < length ids \<and> ids ! l = k \<and> (\<forall>q. l < q \<and> q < length ids \<longrightarrow> ids ! q \<noteq> k)
         \<and> id_to_index ids s0 k = Some (s0 + int l)" ..
  with x have "index = s0 + int l" by simp
  with row have "fst r = py_str (s0 + int l)" by (simp add: post_row_rank)
  with v show ?thesis by (intro exI [of _ l]) simp
qed

section \<open>Validation of the arguments\<close>

lemma validate_rejects:
  assumes "arg_start a < 1 \<or> arg_num a < 1 \<or>
     (\<exists>limit. map_of MODE_LIMITS (arg_mode a) = Some limit \<and> limit < arg_start a + arg_num a - 1)"
  shows "validate a \<noteq> None"
  using assms by (auto simp: validate_def split: option.splits)

text \<open>
  C2: whenever \<open>start < 1\<close>, or \<open>num < 1\<close>, or \<open>start + num - 1\<close> is above the limit of
  the mode (500 for top, new and best; 200 for ask, show and job), \<open>main\<close> ends in a usage
  error with a non-zero exit status, and its trace is empty: no request was sent. With
  mode top and start 1, \<open>num = 500\<close> passes the checks and \<open>num = 501\<close> does not;
  \<open>start = 0\<close> and \<open>num = 0\<close> are refused whatever the other arguments are.
\<close>

theorem invalid_arguments_exit_before_any_request:
  "(arg_start a < 1 \<or> arg_num a < 1 \<or>
      (\<exists>limit. map_of MODE_LIMITS (arg_mode a) = Some limit \<and> limit < arg_start a + arg_num a - 1)
    \<longrightarrow> (\<exists>msg. main e a = (UsageError msg, [])) \<and> exit_status (fst (main e a)) \<noteq> 0
        \<and> http_requests (snd (main e a)) = [])
   \<and> map_of MODE_LIMITS ''top'' = Some 500 \<and> map_of MODE_LIMITS ''new'' = Some 500
   \<and> map_of MODE_LIMITS ''best'' = Some 500 \<and> map_of MODE_LIMITS ''ask'' = Some 200
   \<and> map_of MODE_LIMITS ''show'' = Some 200 \<and> map_of MODE_LIMITS ''job'' = Some 200
   \<and> validate \<lparr>arg_mode = ''top'', arg_start = 1, arg_num = 500\<rparr> = None
   \<and> (\<forall>msg. fst (main e \<lparr>arg_mode = ''top'', arg_start = 1, arg_num = 500\<rparr>) \<noteq> UsageError msg)
   \<and> (\<exists>msg. main e \<lparr>arg_mode = ''top'', arg_start = 1, arg_num = 501\<rparr> = (UsageError msg, []))
   \<and> (\<exists>msg. main e (a\<lparr>arg_start := 0\<rparr>) = (UsageError msg, []))
   \<and> (\<exists>msg. main e (a\<lparr>arg_num := 0\<rparr>) = (UsageError msg, []))"
proof -
  have rej: "\<exists>msg. main e b = (UsageError msg, [])" if "validate b \<noteq> None" for b
    using that by (auto simp: main_def)
  have bad: "(\<exists>msg. main e a = (UsageError msg, [])) \<and> exit_status (fst (main e a)) \<noteq> 0
        \<and> http_requests (snd (main e a)) = []"
    if "arg_start a < 1 \<or> arg_num a < 1 \<or>
      (\<exists>limit. map_of MODE_LIMITS (arg_mode a) = Some limit \<and> limit < arg_start a + arg_num a - 1)"
  proof -
    from that have "validate a \<noteq> None" by (rule validate_rejects)
    then obtain msg where "main e a = (UsageError msg, [])" using rej by blast
    then show ?thesis by simp
  qed
  have limits: "map_of MODE_LIMITS ''top'' = Some 500" "map_of MODE_LIMITS ''new'' = Some 500"
    "map_of MODE_LIMITS ''best'' = Some 500" "map_of MODE_LIMITS ''ask'' = Some 200"
    "map_of MODE_LIMITS ''show'' = Some 200" "map_of MODE_LIMITS ''job'' = Some 200"
    by (simp_all add: MODE_LIMITS_def)
  have ok: "validate \<lparr>arg_mode = ''top'', arg_start = 1, arg_num = 500\<rparr> = None"
    by (simp add: validate_def limits)
  have pass: "\<forall>msg. fst (main e \<lparr>arg_mode = ''top'', arg_start = 1, arg_num = 500\<rparr>) \<noteq> UsageError msg"
    by (simp add: main_def ok split: prod.splits sum.splits)
  have over: "\<exists>msg. main e \<lparr>arg_mode = ''top'', arg_start = 1, arg_num = 501\<rparr> = (UsageError msg, [])"
    by (rule rej) (simp add: validate_def limits)
  have s0: "\<exists>msg. main e (a\<lparr>arg_start := 0\<rparr>) = (UsageError msg, [])"
    by (rule rej, rule validate_rejects) simp
  have n0: "\<exists>msg. main e (a\<lparr>arg_num := 0\<rparr>) = (UsageError msg, [])"
    by (rule rej, rule validate_rejects) simp
  from bad limits ok pass over s0 n0 show ?thesis by blast
qed

text \<open>The theorem at \<^verbatim>\<open>--mode ask --start 0 --num 5\<close> and at
  \<^verbatim>\<open>--mode ask --start 1 --num 201\<close>.\<close>

theorem invalid_arguments_exit_before_any_request_witness:
  "arg_start \<lparr>arg_mode = ''ask'', arg_start = 0, arg_num = 5\<rparr> < 1
   \<and> (\<exists>msg. main demo_env \<lparr>arg_mode = ''ask'', arg_start = 0, arg_num = 5\<rparr> = (UsageError msg, []))
   \<and> exit_status (fst (main demo_env \<lparr>arg_mode = ''ask'', arg_start = 0, arg_num = 5\<rparr>)) \<noteq> 0
   \<and> map_of MODE_LIMITS ''ask'' = Some 200
   \<and> (\<exists>msg. main demo_env \<lparr>arg_mode = ''ask'', arg_start = 1, arg_num = 201\<rparr> = (UsageError msg, []))"
  using invalid_arguments_exit_before_any_request
    [of "\<lparr>arg_mode = ''ask'', arg_start = 0, arg_num = 5\<rparr>" demo_env]
    invalid_arguments_exit_before_any_request
    [of "\<lparr>arg_mode = ''ask'', arg_start = 1, arg_num = 201\<rparr>" demo_env]
  by simp

section \<open>The listing request and the limiter\<close>

text \<open>
  C8: the listing request (\<open>resolve_ids\<close>) leaves the limiter's \<open>last_time\<close> as it was,
  reads no clock and adds one request to the trace, while an item fetch
  (\<open>get_article_by_id\<close>) sets \<open>last_time\<close> to its second clock reading. In a whole run the
  listing request is the first effect, and the clock is read exactly twice for every request
  other than the listing request.
\<close>

theorem only_item_fetches_pass_the_limiter:
  "last_time (snd (resolve_ids e mode n s0 w)) = last_time w
   \<and> reads (snd (resolve_ids e mode n s0 w)) = reads w
   \<and> trace (snd (resolve_ids e mode n s0 w)) = trace w @ [HttpGet (STORIES mode)]
   \<and> last_time (get_article_by_id e i w) = clock e (Suc (reads w))
   \<and> reads (get_article_by_id e i w) = reads w + 2
   \<and> take 1 (trace (snd (get_stories e mode n mw s0))) = [HttpGet (STORIES mode)]
   \<and> reads (snd (get_stories e mode n mw s0)) + 2
       = 2 * length (http_requests (trace (snd (get_stories e mode n mw s0))))"
proof -
  let ?w0 = "requests_get (STORIES mode) new_limiter"
  have frame: "snd (resolve_ids e mode n s0 w) = requests_get (STORIES mode) w"
    by (simp add: resolve_ids_def split: sum.splits)
  have w0: "trace ?w0 = [HttpGet (STORIES mode)]" "reads ?w0 = 0"
    by (simp_all add: requests_get_def new_limiter_def)
  have run: "take 1 (trace (run_tasks e f2i order ?w0)) = [HttpGet (STORIES mode)]
      \<and> reads (run_tasks e f2i order ?w0) + 2 = 2 * length (http_requests (trace (run_tasks e f2i order ?w0)))"
    for f2i order
  proof -
    obtain more where "trace (run_tasks e f2i order ?w0) = trace ?w0 @ more"
      using run_tasks_extends by blast
    then have a: "take 1 (trace (run_tasks e f2i order ?w0)) = [HttpGet (STORIES mode)]"
      by (simp add: w0)
    from run_tasks_reads [of e f2i order ?w0]
    have "reads (run_tasks e f2i order ?w0) + 2 = 2 * length (http_requests (trace (run_tasks e f2i order ?w0)))"
      by (simp add: w0)
    with a show ?thesis by blast
  qed
  have whole: "take 1 (trace (snd (get_stories e mode n mw s0))) = [HttpGet (STORIES mode)]
     \<and> reads (snd (get_stories e mode n mw s0)) + 2
       = 2 * length (http_requests (trace (snd (get_stories e mode n mw s0))))"
    using get_stories_world [of e mode n mw s0] run [of _ "[]"] run by (elim disjE exE) simp_all
  show ?thesis
    using whole by (simp add: frame requests_get_def get_article_last_time get_article_reads)
qed

section \<open>A listing shorter than the requested window\<close>

text \<open>
  C9: when the listing holds fewer than \<open>start - 1 + num\<close> ids, the slice is what is left
  of the listing from position \<open>start - 1\<close> on, and nothing is raised for it: with item
  answers that follow the endpoint's schema the run ends without an exception, and the
  total of the progress bar and the number of rows both equal the length of that slice,
  which is below \<open>num\<close> and may be zero.
\<close>

theorem short_listing_gives_fewer_rows:
  assumes L: "listing_of e (STORIES mode) = Inr listing"
    and S: "1 \<le> s0" and N: "1 \<le> n"
    and short: "int (length listing) < s0 - 1 + n"
    and C: "each_once (length listing - nat (s0 - 1)) (completed e)"
  shows "py_slice listing (s0 - 1) (s0 - 1 + n) = drop (nat (s0 - 1)) listing
     \<and> (answers_are_objects e (drop (nat (s0 - 1)) listing) \<longrightarrow>
        (\<exists>rep w. get_stories e mode n mw s0 = (Inr rep, w)
          \<and> progress_total rep = length listing - nat (s0 - 1)
          \<and> length (rows (shown rep)) = length listing - nat (s0 - 1)
          \<and> length (rows (shown rep)) < nat n))"
proof -
  define ids where "ids = py_slice listing (s0 - 1) (s0 - 1 + n)"
  from S N short have sl: "py_slice listing (s0 - 1) (s0 - 1 + n) = drop (nat (s0 - 1)) listing"
    by (rule slice_short)
  then have len: "length ids = length listing - nat (s0 - 1)" by (simp add: ids_def)
  from N have W: "0 < max mw n" by simp
  from C len have C': "each_once (length ids) (completed e)" by simp
  have run: "\<exists>rep w. get_stories e mode n mw s0 = (Inr rep, w)
          \<and> progress_total rep = length listing - nat (s0 - 1)
          \<and> length (rows (shown rep)) = length listing - nat (s0 - 1)
          \<and> length (rows (shown rep)) < nat n"
    if "answers_are_objects e (drop (nat (s0 - 1)) listing)"
  proof -
    from that sl have O: "answers_are_objects e ids" by (simp add: ids_def)
    from L ids_def W C' O obtain rep where
      g: "get_stories e mode n mw s0 =
         (Inr rep, run_tasks e (future_to_id ids) (admitted e) (requests_get (STORIES mode) new_limiter))"
      and l: "length (rows (shown rep)) = length ids"
      and t: "progress_total rep = length ids"
      by (rule get_stories_rows)
    from S N short have lt: "length listing - nat (s0 - 1) < nat n" by linarith
    from t len have t': "progress_total rep = length listing - nat (s0 - 1)" by simp
    from l len have l': "length (rows (shown rep)) = length listing - nat (s0 - 1)" by simp
    from l' lt have l'': "length (rows (shown rep)) < nat n" by simp
    from g t' l' l'' show ?thesis by (intro exI conjI)
  qed
  then have "answers_are_objects e (drop (nat (s0 - 1)) listing) \<longrightarrow>
        (\<exists>rep w. get_stories e mode n mw s0 = (Inr rep, w)
          \<and> progress_total rep = length listing - nat (s0 - 1)
          \<and> length (rows (shown rep)) = length listing - nat (s0 - 1)
          \<and> length (rows (shown rep)) < nat n)"
    by (rule impI)
  with sl show ?thesis by (rule conjI)
qed

text \<open>The theorem for the listing \<open>[101, 102, 103]\<close> with \<open>start = 2\<close> and \<open>num = 5\<close>.\<close>

theorem short_listing_gives_fewer_rows_witness:
  "listing_of (demo_env\<lparr>completed := [1, 0]\<rparr>) (STORIES ''top'') = Inr [101, 102, 103]
   \<and> int (length [101, 102, 103 :: int]) < 2 - 1 + 5
   \<and> answers_are_objects (demo_env\<lparr>completed := [1, 0]\<rparr>) (drop (nat (2 - 1)) [101, 102, 103])
   \<and> py_slice [101, 102, 103] (2 - 1) (2 - 1 + 5) = drop (nat (2 - 1)) [101, 102, 103 :: int]
   \<and> (\<exists>rep w. get_stories (demo_env\<lparr>completed := [1, 0]\<rparr>) ''top'' 5 10 2 = (Inr rep, w)
          \<and> progress_total rep = length [101, 102, 103 :: int] - nat (2 - 1)
          \<and> length (rows (shown rep)) = length [101, 102, 103 :: int] - nat (2 - 1)
          \<and> length (rows (shown rep)) < nat 5)"
proof -
  have L: "listing_of (demo_env\<lparr>completed := [1, 0]\<rparr>) (STORIES ''top'') = Inr [101, 102, 103]"
    by (simp add: demo_env_def)
  have C: "each_once (length [101, 102, 103 :: int] - nat (2 - 1)) (completed (demo_env\<lparr>completed := [1, 0]\<rparr>))"
    by (simp add: each_once_def)
  have short: "int (length [101, 102, 103 :: int]) < 2 - 1 + 5" by simp
  have S: "(1::int) \<le> 2" and N: "(1::int) \<le> 5" by simp_all
  have O: "answers_are_objects (demo_env\<lparr>completed := [1, 0]\<rparr>) (drop (nat (2 - 1)) [101, 102, 103])"
    by (simp add: answers_are_objects_def demo_env_def)
  note t = short_listing_gives_fewer_rows [OF L S N short C, of 10]
  from t have a: "py_slice [101, 102, 103] (2 - 1) (2 - 1 + 5) = drop (nat (2 - 1)) [101, 102, 103 :: int]"
    by (rule conjunct1)
  from t [THEN conjunct2] O have b: "\<exists>rep w. get_stories (demo_env\<lparr>completed := [1, 0]\<rparr>) ''top'' 5 10 2 = (Inr rep, w)
          \<and> progress_total rep = length [101, 102, 103 :: int] - nat (2 - 1)
          \<and> length (rows (shown rep)) = length [101, 102, 103 :: int] - nat (2 - 1)
          \<and> length (rows (shown rep)) < nat 5"
    by (rule mp)
  show ?thesis by (rule conjI [OF L conjI [OF short conjI [OF O conjI [OF a b]]]])
qed

section \<open>The order of completion\<close>

text \<open>
  C4: take two runs with the same arguments against the same API: the same listing, and
  for every story id one fixed answer (a story or a failure) whatever request asks for it.
  Whatever the orders in which their fetches complete, both runs end with the same result:
  the same table with the same rows in the same order, or the same exception.
\<close>

theorem table_independent_of_completion_order:
  assumes LL: "listing_of e1 = listing_of e2"
    and A1: "\<And>t i. item_of e1 t i = api i"
    and A2: "\<And>t i. item_of e2 t i = api i"
    and C: "\<And>listing. listing_of e1 (STORIES mode) = Inr listing \<Longrightarrow>
            each_once (length (py_slice listing (s0 - 1) (s0 - 1 + n))) (completed e1) \<and>
            each_once (length (py_slice listing (s0 - 1) (s0 - 1 + n))) (completed e2)"
  shows "fst (get_stories e1 mode n mw s0) = fst (get_stories e2 mode n mw s0)"
proof (cases "listing_of e1 (STORIES mode)")
  case (Inl x)
  with LL have "listing_of e2 (STORIES mode) = Inl x" by simp
  with Inl show ?thesis by (simp add: get_stories_listing_fails)
next
  case (Inr listing)
  with LL have L2: "listing_of e2 (STORIES mode) = Inr listing" by simp
  show ?thesis
  proof (cases "max mw n \<le> 0")
    case True
    with Inr L2 show ?thesis by (simp add: get_stories_no_workers)
  next
    case False
    then have W: "0 < max mw n" by linarith
    define ids where "ids = py_slice listing (s0 - 1) (s0 - 1 + n)"
    from C [OF Inr] have C1: "each_once (length ids) (completed e1)"
      and C2: "each_once (length ids) (completed e2)" by (simp_all add: ids_def)
    show ?thesis
    proof (cases "answers_are_objects e1 ids")
      case False
      with A1 A2 have "\<not> answers_are_objects e2 ids" by (simp add: answers_are_objects_iff)
      with L2 ids_def W C2 have "fst (get_stories e2 mode n mw s0) = Inl AttributeError"
        by (rule get_stories_aborts)
      moreover from Inr ids_def W C1 False have "fst (get_stories e1 mode n mw s0) = Inl AttributeError"
        by (rule get_stories_aborts)
      ultimately show ?thesis by simp
    next
      case O1: True
      with A1 A2 have O2: "answers_are_objects e2 ids" by (simp add: answers_are_objects_iff)
    from Inr ids_def W C1 O1 obtain post1 where
      p1: "collect e1 (future_to_id ids) (id_to_index ids s0) (completed e1) Map.empty = Inr post1"
      and d1: "set ids \<subseteq> dom post1"
      and g1: "get_stories e1 mode n mw s0 =
           (Inr \<lparr>shown = new_table\<lparr>rows := map (\<lambda>k. the (post1 k)) ids\<rparr>,
                 progress_total = length ids, progress_ticks = length ids, pool_size = max mw n\<rparr>,
            run_tasks e1 (future_to_id ids) (admitted e1) (requests_get (STORIES mode) new_limiter))"
      by (rule get_stories_run)
    from L2 ids_def W C2 O2 obtain post2 where
      p2: "collect e2 (future_to_id ids) (id_to_index ids s0) (completed e2) Map.empty = Inr post2"
      and d2: "set ids \<subseteq> dom post2"
      and g2: "get_stories e2 mode n mw s0 =
           (Inr \<lparr>shown = new_table\<lparr>rows := map (\<lambda>k. the (post2 k)) ids\<rparr>,
                 progress_total = length ids, progress_ticks = length ids, pool_size = max mw n\<rparr>,
            run_tasks e2 (future_to_id ids) (admitted e2) (requests_get (STORIES mode) new_limiter))"
      by (rule get_stories_run)
    have same: "the (post1 k) = the (post2 k)" if "k \<in> set ids" for k
    proof -
      from that d1 have "k \<in> dom post1" by (rule subsetD [rotated])
      then obtain r1 where r1: "post1 k = Some r1" using domD by blast
      from that d2 have "k \<in> dom post2" by (rule subsetD [rotated])
      then obtain r2 where r2: "post2 k = Some r2" using domD by blast
      from collect_fixed_api [OF p1 A1 r1] obtain x1 where
        x1: "id_to_index ids s0 k = Some x1" "post_row x1 k (api k) = Inr r1" by (elim exE conjE)
      from collect_fixed_api [OF p2 A2 r2] obtain x2 where
        x2: "id_to_index ids s0 k = Some x2" "post_row x2 k (api k) = Inr r2" by (elim exE conjE)
      from x1 x2 have "r1 = r2" by simp
      with r1 r2 show ?thesis by simp
    qed
    then have "map (\<lambda>k. the (post1 k)) ids = map (\<lambda>k. the (post2 k)) ids" by simp
    with g1 g2 show ?thesis by simp
    qed
  qed
qed

text \<open>The theorem for the completion orders \<open>[1, 2, 0]\<close> and \<open>[0, 1, 2]\<close> of three tasks.\<close>

theorem table_independent_of_completion_order_witness:
  "completed demo_env \<noteq> completed (demo_env\<lparr>completed := [0, 1, 2]\<rparr>)
   \<and> fst (get_stories demo_env ''top'' 3 10 1)
       = fst (get_stories (demo_env\<lparr>completed := [0, 1, 2]\<rparr>) ''top'' 3 10 1)"
proof -
  let ?api = "\<lambda>i::int. if i = 102 then Inl RequestException
                       else Inr (Object \<lparr>title = Some ''Story'', url = None\<rparr>)"
  have LL: "listing_of demo_env = listing_of (demo_env\<lparr>completed := [0, 1, 2]\<rparr>)" by simp
  have A1: "\<And>t i. item_of demo_env t i = ?api i" by (simp add: demo_env_def)
  have A2: "\<And>t i. item_of (demo_env\<lparr>completed := [0, 1, 2]\<rparr>) t i = ?api i"
    by (simp add: demo_env_def)
  have C: "each_once (length (py_slice listing (1 - 1) (1 - 1 + 3))) (completed demo_env) \<and>
           each_once (length (py_slice listing (1 - 1) (1 - 1 + 3))) (completed (demo_env\<lparr>completed := [0, 1, 2]\<rparr>))"
    if "listing_of demo_env (STORIES ''top'') = Inr listing" for listing
  proof -
    from that have "listing = [101, 102, 103]" by (simp add: demo_env_def)
    then show ?thesis by (simp add: py_slice_def slice_bound_def each_once_def demo_env_def)
  qed
  have "completed demo_env \<noteq> completed (demo_env\<lparr>completed := [0, 1, 2]\<rparr>)"
    by (simp add: demo_env_def)
  then show ?thesis
    using table_independent_of_completion_order [of demo_env "demo_env\<lparr>completed := [0, 1, 2]\<rparr>" ?api "''top''" 1 3 10, OF LL A1 A2 C]
    by (rule conjI)
qed

section \<open>Ranks\<close>

text \<open>
  C10, as amended: let the window hold the same id at positions \<open>i < j\<close>, \<open>j\<close> being its
  last occurrence, and let \<open>t\<close> be the fetch of this id that completes last. The table
  still has one row for every position of the window. Every row of that id is the same
  row: it shows the rank of position \<open>j\<close> (in \<open>id_to_index\<close> a later occurrence
  overwrites an earlier one) and the result of the fetch \<open>t\<close> (in \<open>id_to_post\<close> a later
  completion overwrites an earlier one, whatever the positions). No row of the table
  shows the rank of the earlier position \<open>i\<close>.
\<close>

theorem repeated_id_rows_show_last_rank_and_last_fetch:
  assumes L: "listing_of e (STORIES mode) = Inr listing"
    and I: "ids = py_slice listing (s0 - 1) (s0 - 1 + n)"
    and W: "0 < max mw n"
    and C: "each_once (length ids) (completed e)"
    and O: "answers_are_objects e ids"
    and ij: "i < j" and j: "j < length ids" and dup: "ids ! i = ids ! j"
    and last: "\<forall>q. j < q \<and> q < length ids \<longrightarrow> ids ! q \<noteq> ids ! j"
    and comp: "completed e = xs @ t # ys" and t: "ids ! t = ids ! j"
    and later: "\<forall>u\<in>set ys. ids ! u \<noteq> ids ! j"
  shows "\<exists>rep w. get_stories e mode n mw s0 = (Inr rep, w)
          \<and> length (rows (shown rep)) = length ids
          \<and> (\<forall>q<length ids. ids ! q = ids ! j \<longrightarrow>
                post_row (s0 + int j) (ids ! j) (item_of e t (ids ! j)) = Inr (rows (shown rep) ! q)
                \<and> rows (shown rep) ! q = rows (shown rep) ! j
                \<and> fst (rows (shown rep) ! q) = py_str (s0 + int j))
          \<and> (\<forall>q<length ids. fst (rows (shown rep) ! q) \<noteq> py_str (s0 + int i))"
proof -
  from L I W C O obtain rep post where
    g: "get_stories e mode n mw s0 =
       (Inr rep, run_tasks e (future_to_id ids) (admitted e) (requests_get (STORIES mode) new_limiter))"
    and p: "collect e (future_to_id ids) (id_to_index ids s0) (completed e) Map.empty = Inr post"
    and d: "set ids \<subseteq> dom post"
    and rws: "rows (shown rep) = map (\<lambda>k. the (post k)) ids"
    by (rule get_stories_post)
  from rws have l: "length (rows (shown rep)) = length ids" by simp
  have nth: "rows (shown rep) ! q = the (post (ids ! q))" if "q < length ids" for q
    using that by (simp only: rws nth_map)
  from C have cs: "set (completed e) = {0..<length ids}" by (rule each_once_set)
  with comp have tl: "t < length ids" and ysl: "\<forall>u\<in>set ys. u < length ids" by auto
  from tl t have ft: "future_to_id ids t = Some (ids ! j)" by (simp add: future_to_id_nth)
  from ysl later have fy: "\<forall>u\<in>set ys. future_to_id ids u \<noteq> Some (ids ! j)"
    by (simp add: future_to_id_nth)
  from p comp have p': "collect e (future_to_id ids) (id_to_index ids s0) (xs @ t # ys) Map.empty = Inr post"
    by simp
  from collect_last [OF p' ft fy] obtain index r where
    x: "id_to_index ids s0 (ids ! j) = Some index"
    and row: "post_row index (ids ! j) (item_of e t (ids ! j)) = Inr r"
    and pj: "post (ids ! j) = Some r"
    by (elim exE conjE)
  from j last have "id_to_index ids s0 (ids ! j) = Some (s0 + int j)" by (rule id_to_index_last)
  with x have xj: "index = s0 + int j" by simp
  from row xj have row': "post_row (s0 + int j) (ids ! j) (item_of e t (ids ! j)) = Inr r" by simp
  from row' have rk: "fst r = py_str (s0 + int j)" by (rule post_row_rank)
  from j pj have rj: "rows (shown rep) ! j = r" by (simp add: nth)
  have A: "post_row (s0 + int j) (ids ! j) (item_of e t (ids ! j)) = Inr (rows (shown rep) ! q)
                \<and> rows (shown rep) ! q = rows (shown rep) ! j
                \<and> fst (rows (shown rep) ! q) = py_str (s0 + int j)"
    if q: "q < length ids" and e: "ids ! q = ids ! j" for q
  proof -
    from q e pj have "rows (shown rep) ! q = r" by (simp add: nth)
    with row' rj rk show ?thesis by simp
  qed
  have B: "fst (rows (shown rep) ! q) \<noteq> py_str (s0 + int i)" if q: "q < length ids" for q
  proof
    assume eq: "fst (rows (shown rep) ! q) = py_str (s0 + int i)"
    from q have "ids ! q \<in> set ids" by (rule nth_mem)
    with d have "ids ! q \<in> dom post" by (rule subsetD)
    then obtain r' where pq: "post (ids ! q) = Some r'" using domD by blast
    from rank_shown [OF p pq] obtain l where
      v: "l < length ids \<and> ids ! l = ids ! q \<and> (\<forall>r. l < r \<and> r < length ids \<longrightarrow> ids ! r \<noteq> ids ! q)
           \<and> fst r' = py_str (s0 + int l)" ..
    from q pq have "rows (shown rep) ! q = r'" by (simp add: nth)
    with eq v have "py_str (s0 + int l) = py_str (s0 + int i)" by simp
    then have "s0 + int l = s0 + int i" by (rule py_str_inj)
    then have li: "l = i" by simp
    from v li have "\<forall>r. i < r \<and> r < length ids \<longrightarrow> ids ! r \<noteq> ids ! i" by simp
    with ij j have "ids ! j \<noteq> ids ! i" by simp
    with dup show False by simp
  qed
  from A have A': "\<forall>q<length ids. ids ! q = ids ! j \<longrightarrow>
                post_row (s0 + int j) (ids ! j) (item_of e t (ids ! j)) = Inr (rows (shown rep) ! q)
                \<and> rows (shown rep) ! q = rows (shown rep) ! j
                \<and> fst (rows (shown rep) ! q) = py_str (s0 + int j)" by (intro allI impI)
  from B have B': "\<forall>q<length ids. fst (rows (shown rep) ! q) \<noteq> py_str (s0 + int i)"
    by (intro allI impI)
  from g l A' B' show ?thesis by (intro exI conjI)
qed

text \<open>
  The theorem for the window \<open>[7, 8, 7]\<close> with \<open>i = 0\<close> and \<open>j = 2\<close>, where the fetches
  complete in the order \<open>[2, 1, 0]\<close>: the fetch of position 0, which fails, completes last.
\<close>

theorem repeated_id_rows_show_last_rank_and_last_fetch_witness:
  "completed (dup_env\<lparr>completed := [2, 1, 0]\<rparr>) = [2, 1] @ 0 # []
   \<and> [7, 8, 7 :: int] ! 0 = [7, 8, 7] ! 2
   \<and> item_of (dup_env\<lparr>completed := [2, 1, 0]\<rparr>) 0 ([7, 8, 7] ! 2) = Inl RequestException
   \<and> (\<exists>rep w. get_stories (dup_env\<lparr>completed := [2, 1, 0]\<rparr>) ''top'' 3 10 1 = (Inr rep, w)
          \<and> length (rows (shown rep)) = length [7, 8, 7 :: int]
          \<and> (\<forall>q<length [7, 8, 7 :: int]. [7, 8, 7 :: int] ! q = [7, 8, 7] ! 2 \<longrightarrow>
                post_row (1 + int 2) ([7, 8, 7] ! 2) (item_of (dup_env\<lparr>completed := [2, 1, 0]\<rparr>) 0 ([7, 8, 7] ! 2))
                  = Inr (rows (shown rep) ! q)
                \<and> rows (shown rep) ! q = rows (shown rep) ! 2
                \<and> fst (rows (shown rep) ! q) = py_str (1 + int 2))
          \<and> (\<forall>q<length [7, 8, 7 :: int]. fst (rows (shown rep) ! q) \<noteq> py_str (1 + int 0)))"
proof -
  let ?e = "dup_env\<lparr>completed := [2, 1, 0]\<rparr>"
  have L: "listing_of ?e (STORIES ''top'') = Inr [7, 8, 7]" by (simp add: dup_env_def)
  have I: "[7, 8, 7 :: int] = py_slice [7, 8, 7] (1 - 1) (1 - 1 + 3)"
    by (simp add: py_slice_def slice_bound_def)
  have W: "(0::int) < max 10 3" by simp
  have C: "each_once (length [7, 8, 7 :: int]) (completed ?e)"
    by (simp add: each_once_def)
  have O: "answers_are_objects ?e [7, 8, 7]"
    by (simp add: answers_are_objects_def dup_env_def)
  have ij: "(0::nat) < 2" and j: "2 < length [7, 8, 7 :: int]" by simp_all
  have dup: "[7, 8, 7 :: int] ! 0 = [7, 8, 7] ! 2" by simp
  have last: "\<forall>q. 2 < q \<and> q < length [7, 8, 7 :: int] \<longrightarrow> [7, 8, 7 :: int] ! q \<noteq> [7, 8, 7] ! 2"
    by simp
  have comp: "completed ?e = [2, 1] @ 0 # []" by simp
  have t: "[7, 8, 7 :: int] ! 0 = [7, 8, 7] ! 2" by simp
  have later: "\<forall>u\<in>set []. [7, 8, 7 :: int] ! u \<noteq> [7, 8, 7] ! 2" by simp
  have F: "item_of ?e 0 ([7, 8, 7] ! 2) = Inl RequestException" by (simp add: dup_env_def)
  show ?thesis
    by (rule conjI [OF comp conjI [OF dup conjI [OF F
        repeated_id_rows_show_last_rank_and_last_fetch [OF L I W C O ij j dup last comp t later]]]])
qed

text \<open>
  As stated, C10 fails for the result: it is not the later occurrence that overwrites the
  earlier one. In the window \<open>[7, 8, 7]\<close> with completion order \<open>[2, 1, 0]\<close> the fetch of
  the later position 2 succeeds, and both rows of the id show the failure of the fetch of
  position 0.
\<close>

theorem later_occurrence_result_counterexample:
  "item_of (dup_env\<lparr>completed := [2, 1, 0]\<rparr>) 2 ([7, 8, 7] ! 2)
     = Inr (Object \<lparr>title = Some ''Story'', url = None\<rparr>)
   \<and> fst (get_stories (dup_env\<lparr>completed := [2, 1, 0]\<rparr>) ''top'' 3 10 1) =
     Inr \<lparr>shown = \<lparr>columns = [''No.'', ''Title'', ''URL''],
       rows = [(''3'', Plain ''<RATE LIMITED>'', Plain sob),
               (''2'', Styled ''Story'' ''bold yellow'', Styled ''https://news.ycombinator.com/item?id=8'' ''blue underline''),
               (''3'', Plain ''<RATE LIMITED>'', Plain sob)]\<rparr>,
       progress_total = 3, progress_ticks = 3, pool_size = 10\<rparr>"
  by (simp add: get_stories_def resolve_ids_def dup_env_def
      py_slice_def slice_bound_def new_table_def
      id_to_index_def future_to_id_def post_row_def failed_row_def story_row_def get_or_def
      py_str_def str_nat_small str_nat_big digit_char_def Let_def)

text \<open>
  C5, as amended: the rank assigned to an id of the window is \<open>start\<close> plus the position of
  its last occurrence in the window (its only position when it occurs once), and this is the
  rank shown in every row of that id. \<open>id_to_index\<close> is computed once from the window and
  nothing writes to it afterwards.
\<close>

theorem assigned_rank_is_last_position:
  assumes L: "listing_of e (STORIES mode) = Inr listing"
    and I: "ids = py_slice listing (s0 - 1) (s0 - 1 + n)"
    and W: "0 < max mw n"
    and C: "each_once (length ids) (completed e)"
    and p: "p < length ids"
    and last: "\<forall>q. p < q \<and> q < length ids \<longrightarrow> ids ! q \<noteq> ids ! p"
  shows "id_to_index ids s0 (ids ! p) = Some (s0 + int p)
     \<and> (answers_are_objects e ids \<longrightarrow>
        (\<exists>rep w. get_stories e mode n mw s0 = (Inr rep, w)
          \<and> (\<forall>q<length ids. ids ! q = ids ! p \<longrightarrow> fst (rows (shown rep) ! q) = py_str (s0 + int p))))"
proof -
  from p last have x: "id_to_index ids s0 (ids ! p) = Some (s0 + int p)" by (rule id_to_index_last)
  have run: "\<exists>rep w. get_stories e mode n mw s0 = (Inr rep, w)
          \<and> (\<forall>q<length ids. ids ! q = ids ! p \<longrightarrow> fst (rows (shown rep) ! q) = py_str (s0 + int p))"
    if O: "answers_are_objects e ids"
  proof -
    from L I W C O obtain rep where
      g: "get_stories e mode n mw s0 =
         (Inr rep, run_tasks e (future_to_id ids) (admitted e) (requests_get (STORIES mode) new_limiter))"
      and l: "length (rows (shown rep)) = length ids"
      and t: "progress_total rep = length ids"
      and k: "progress_ticks rep = length ids"
      and r0: "\<forall>p<length ids. \<exists>t index. t < length ids \<and> ids ! t = ids ! p
                  \<and> id_to_index ids s0 (ids ! p) = Some index
                  \<and> post_row index (ids ! p) (item_of e t (ids ! p)) = Inr (rows (shown rep) ! p)"
      and s0: "\<forall>p<length ids. \<forall>q<length ids. ids ! p = ids ! q \<longrightarrow>
                  rows (shown rep) ! p = rows (shown rep) ! q"
      by (rule get_stories_rows)
    note r = r0 [rule_format]
    have A: "fst (rows (shown rep) ! q) = py_str (s0 + int p)"
      if q: "q < length ids" and e: "ids ! q = ids ! p" for q
    proof -
      from r [OF q] obtain t index where xq: "id_to_index ids s0 (ids ! q) = Some index"
        and row: "post_row index (ids ! q) (item_of e t (ids ! q)) = Inr (rows (shown rep) ! q)"
        by (elim exE conjE)
      from xq e x have "index = s0 + int p" by simp
      with row show ?thesis by (simp add: post_row_rank)
    qed
    then have A': "\<forall>q<length ids. ids ! q = ids ! p \<longrightarrow> fst (rows (shown rep) ! q) = py_str (s0 + int p)"
      by (intro allI impI)
    from g A' show ?thesis by (intro exI conjI)
  qed
  then have "answers_are_objects e ids \<longrightarrow>
        (\<exists>rep w. get_stories e mode n mw s0 = (Inr rep, w)
          \<and> (\<forall>q<length ids. ids ! q = ids ! p \<longrightarrow> fst (rows (shown rep) ! q) = py_str (s0 + int p)))"
    by (rule impI)
  with x show ?thesis by (rule conjI)
qed

text \<open>The theorem for the window \<open>[7, 8, 7]\<close> and its last position.\<close>

theorem assigned_rank_is_last_position_witness:
  "2 < length [7, 8, 7 :: int]
   \<and> answers_are_objects dup_env [7, 8, 7]
   \<and> id_to_index [7, 8, 7] 1 ([7, 8, 7] ! 2) = Some (1 + int 2)
   \<and> (\<exists>rep w. get_stories dup_env ''top'' 3 10 1 = (Inr rep, w)
          \<and> (\<forall>q<length [7, 8, 7 :: int]. [7, 8, 7 :: int] ! q = [7, 8, 7] ! 2 \<longrightarrow>
                fst (rows (shown rep) ! q) = py_str (1 + int 2)))"
proof -
  have L: "listing_of dup_env (STORIES ''top'') = Inr [7, 8, 7]" by (simp add: dup_env_def)
  have I: "[7, 8, 7 :: int] = py_slice [7, 8, 7] (1 - 1) (1 - 1 + 3)"
    by (simp add: py_slice_def slice_bound_def)
  have W: "(0::int) < max 10 3" by simp
  have C: "each_once (length [7, 8, 7 :: int]) (completed dup_env)"
    by (simp add: each_once_def dup_env_def)
  have O: "answers_are_objects dup_env [7, 8, 7]"
    by (simp add: answers_are_objects_def dup_env_def)
  have p: "2 < length [7, 8, 7 :: int]" by simp
  have last: "\<forall>q. 2 < q \<and> q < length [7, 8, 7 :: int] \<longrightarrow> [7, 8, 7 :: int] ! q \<noteq> [7, 8, 7] ! 2"
    by simp
  note t = assigned_rank_is_last_position [OF L I W C p last]
  from t have a: "id_to_index [7, 8, 7] 1 ([7, 8, 7] ! 2) = Some (1 + int 2)" by (rule conjunct1)
  from t [THEN conjunct2] O have b: "\<exists>rep w. get_stories dup_env ''top'' 3 10 1 = (Inr rep, w)
          \<and> (\<forall>q<length [7, 8, 7 :: int]. [7, 8, 7 :: int] ! q = [7, 8, 7] ! 2 \<longrightarrow>
                fst (rows (shown rep) ! q) = py_str (1 + int 2))"
    by (rule mp)
  show ?thesis by (rule conjI [OF p conjI [OF O conjI [OF a b]]])
qed

text \<open>
  As stated, C5 fails where an id is repeated: in the window \<open>[7, 8, 7]\<close> with \<open>start = 1\<close>,
  the id at position 0 is assigned rank 3, not rank 1.
\<close>

theorem rank_of_repeated_id_counterexample:
  "id_to_index [7, 8, 7] 1 ([7, 8, 7] ! 0) \<noteq> Some (1 + int 0)
   \<and> id_to_index [7, 8, 7] 1 ([7, 8, 7] ! 0) = Some 3"
  by (simp add: id_to_index_def)

section \<open>Failed fetches\<close>

text \<open>
  What the loop does with fetches that fail, for answers that follow the endpoint's schema:
  once the arguments pass the checks and the listing request succeeds, the run prints a
  table with one row for every id of the window, whichever fetches fail. When the fetches
  of one and the same id all have the same outcome (as they do when no id is repeated in
  the window), the row at a position is the row of the fetch of that position: the
  placeholder \<open>(rank, "<RATE LIMITED>", glyph)\<close> when it failed, the fetched title and url
  otherwise.
\<close>

lemma failed_fetches_become_placeholder_rows:
  assumes V: "validate a = None"
    and L: "listing_of e (STORIES (arg_mode a)) = Inr listing"
    and I: "ids = py_slice listing (arg_start a - 1) (arg_start a - 1 + arg_num a)"
    and C: "each_once (length ids) (completed e)"
    and O: "answers_are_objects e ids"
  shows "\<exists>rep tr. main e a = (Printed rep, tr)
     \<and> length (rows (shown rep)) = length ids
     \<and> ((\<forall>t<length ids. \<forall>u<length ids. ids ! t = ids ! u \<longrightarrow> item_of e t (ids ! t) = item_of e u (ids ! u)) \<longrightarrow>
        (\<forall>p<length ids. \<exists>index. id_to_index ids (arg_start a) (ids ! p) = Some index \<and>
           post_row index (ids ! p) (item_of e p (ids ! p)) = Inr (rows (shown rep) ! p) \<and>
           (\<forall>x. item_of e p (ids ! p) = Inl x \<longrightarrow>
              rows (shown rep) ! p = (py_str index, Plain ''<RATE LIMITED>'', Plain sob)) \<and>
           (\<forall>s. item_of e p (ids ! p) = Inr (Object s) \<longrightarrow>
              rows (shown rep) ! p = story_row index (ids ! p) s)))"
proof -
  from V have "1 \<le> arg_num a" by (rule validate_ok)
  then have W: "0 < max 10 (arg_num a)" by simp
  from L I W C O obtain rep where
    g: "get_stories e (arg_mode a) (arg_num a) 10 (arg_start a) =
       (Inr rep, run_tasks e (future_to_id ids) (admitted e) (requests_get (STORIES (arg_mode a)) new_limiter))"
    and l: "length (rows (shown rep)) = length ids"
    and t: "progress_total rep = length ids"
    and k: "progress_ticks rep = length ids"
    and r0: "\<forall>p<length ids. \<exists>t index. t < length ids \<and> ids ! t = ids ! p
                \<and> id_to_index ids (arg_start a) (ids ! p) = Some index
                \<and> post_row index (ids ! p) (item_of e t (ids ! p)) = Inr (rows (shown rep) ! p)"
    and s0: "\<forall>p<length ids. \<forall>q<length ids. ids ! p = ids ! q \<longrightarrow>
                rows (shown rep) ! p = rows (shown rep) ! q"
    by (rule get_stories_rows)
  note r = r0 [rule_format]
  from V g have m: "main e a = (Printed rep,
      trace (run_tasks e (future_to_id ids) (admitted e) (requests_get (STORIES (arg_mode a)) new_limiter)))"
    by (rule main_printed)
  have R: "\<exists>index. id_to_index ids (arg_start a) (ids ! p) = Some index \<and>
           post_row index (ids ! p) (item_of e p (ids ! p)) = Inr (rows (shown rep) ! p) \<and>
           (\<forall>x. item_of e p (ids ! p) = Inl x \<longrightarrow>
              rows (shown rep) ! p = (py_str index, Plain ''<RATE LIMITED>'', Plain sob)) \<and>
           (\<forall>s. item_of e p (ids ! p) = Inr (Object s) \<longrightarrow>
              rows (shown rep) ! p = story_row index (ids ! p) s)"
    if same: "\<forall>t<length ids. \<forall>u<length ids. ids ! t = ids ! u \<longrightarrow> item_of e t (ids ! t) = item_of e u (ids ! u)"
      and p: "p < length ids" for p
  proof -
    from r [OF p] obtain t index where tl: "t < length ids" and tp: "ids ! t = ids ! p"
      and x: "id_to_index ids (arg_start a) (ids ! p) = Some index"
      and row: "post_row index (ids ! p) (item_of e t (ids ! p)) = Inr (rows (shown rep) ! p)"
      by (elim exE conjE)
    from same [rule_format, OF tl p tp] tp have "item_of e t (ids ! p) = item_of e p (ids ! p)" by simp
    with row have row': "post_row index (ids ! p) (item_of e p (ids ! p)) = Inr (rows (shown rep) ! p)"
      by simp
    from row' have f: "\<forall>x. item_of e p (ids ! p) = Inl x \<longrightarrow>
              rows (shown rep) ! p = (py_str index, Plain ''<RATE LIMITED>'', Plain sob)"
      by (auto simp: post_row_def failed_row_def)
    from row' have s: "\<forall>s. item_of e p (ids ! p) = Inr (Object s) \<longrightarrow>
              rows (shown rep) ! p = story_row index (ids ! p) s"
      by (auto simp: post_row_def)
    from x row' f s show ?thesis by (intro exI [of _ index] conjI)
  qed
  then have R': "(\<forall>t<length ids. \<forall>u<length ids. ids ! t = ids ! u \<longrightarrow> item_of e t (ids ! t) = item_of e u (ids ! u)) \<longrightarrow>
        (\<forall>p<length ids. \<exists>index. id_to_index ids (arg_start a) (ids ! p) = Some index \<and>
           post_row index (ids ! p) (item_of e p (ids ! p)) = Inr (rows (shown rep) ! p) \<and>
           (\<forall>x. item_of e p (ids ! p) = Inl x \<longrightarrow>
              rows (shown rep) ! p = (py_str index, Plain ''<RATE LIMITED>'', Plain sob)) \<and>
           (\<forall>s. item_of e p (ids ! p) = Inr (Object s) \<longrightarrow>
              rows (shown rep) ! p = story_row index (ids ! p) s))"
    by (intro allI impI)
  from m l R' show ?thesis by (intro exI conjI)
qed

text \<open>
  An answer that is not a JSON object is not a failed fetch: \<^verbatim>\<open>future.result()\<close> returns
  it, and \<^verbatim>\<open>story.get\<close> raises in the \<^verbatim>\<open>else\<close> branch, which no \<^verbatim>\<open>except\<close>
  covers. The exception leaves the loop and \<open>get_stories\<close>: no table is printed.
\<close>

lemma non_object_answer_aborts:
  assumes V: "validate a = None"
    and L: "listing_of e (STORIES (arg_mode a)) = Inr listing"
    and I: "ids = py_slice listing (arg_start a - 1) (arg_start a - 1 + arg_num a)"
    and C: "each_once (length ids) (completed e)"
    and N: "\<not> answers_are_objects e ids"
  shows "fst (main e a) = Uncaught AttributeError"
proof -
  from V have "1 \<le> arg_num a" by (rule validate_ok)
  then have W: "0 < max 10 (arg_num a)" by simp
  from L I W C N have "fst (get_stories e (arg_mode a) (arg_num a) 10 (arg_start a)) = Inl AttributeError"
    by (rule get_stories_aborts)
  then obtain w where "get_stories e (arg_mode a) (arg_num a) 10 (arg_start a) = (Inl AttributeError, w)"
    by (cases "get_stories e (arg_mode a) (arg_num a) 10 (arg_start a)") simp
  with V show ?thesis by (simp add: main_def)
qed

text \<open>
  C3, at the input where the code departs from it: the arguments pass the checks, the
  listing request gives \<open>[101, 102, 103]\<close>, no fetch raises, and the answer for 102 is
  JSON \<^verbatim>\<open>null\<close>. The run ends with an uncaught \<^verbatim>\<open>AttributeError\<close> and exit status 1,
  although neither the listing request nor the bounds check failed.
\<close>

theorem null_answer_aborts_the_run:
  "validate demo_args = None
   \<and> listing_of null_env (STORIES (arg_mode demo_args)) = Inr [101, 102, 103]
   \<and> item_of null_env 0 101 = Inr (Object \<lparr>title = Some ''Story'', url = None\<rparr>)
   \<and> item_of null_env 1 102 = Inr NotObject
   \<and> item_of null_env 2 103 = Inr (Object \<lparr>title = Some ''Story'', url = None\<rparr>)
   \<and> fst (main null_env demo_args) = Uncaught AttributeError
   \<and> exit_status (fst (main null_env demo_args)) = 1"
  by (simp add: main_def demo_args_def validate_def MODE_LIMITS_def get_stories_def resolve_ids_def
      null_env_def py_slice_def slice_bound_def new_table_def
      id_to_index_def future_to_id_def post_row_def failed_row_def story_row_def get_or_def
      py_str_def str_nat_small str_nat_big digit_char_def Let_def)

section \<open>The window and its rows\<close>

text \<open>
  C1, as amended: let the arguments pass the checks, let the listing hold at least
  \<open>start - 1 + num\<close> ids, and let no id be repeated in the window. Then the window is the
  slice \<open>[start - 1, start - 1 + num)\<close> of the listing and holds \<open>num\<close> ids; and, with
  item answers that follow the endpoint's schema, after the listing request exactly the ids
  of the window are requested, each once, and the table has \<open>num\<close> rows, whose ranks are
  \<open>start, start + 1, \<dots>, start + num - 1\<close> in this order.
\<close>

theorem full_window_rows_in_rank_order:
  assumes V: "validate a = None"
    and L: "listing_of e (STORIES (arg_mode a)) = Inr listing"
    and I: "ids = py_slice listing (arg_start a - 1) (arg_start a - 1 + arg_num a)"
    and long: "arg_start a - 1 + arg_num a \<le> int (length listing)"
    and D: "distinct ids"
    and C: "each_once (length ids) (completed e)"
    and A: "each_once (length ids) (admitted e)"
  shows "ids = take (nat (arg_num a)) (drop (nat (arg_start a - 1)) listing)
     \<and> length ids = nat (arg_num a)
     \<and> (answers_are_objects e ids \<longrightarrow>
        (\<exists>rep tr. main e a = (Printed rep, tr)
          \<and> length (rows (shown rep)) = nat (arg_num a)
          \<and> map fst (rows (shown rep)) = map (\<lambda>p. py_str (arg_start a + int p)) [0..<nat (arg_num a)]
          \<and> http_requests tr = STORIES (arg_mode a) # map (\<lambda>t. ITEM (ids ! t)) (admitted e)))"
proof -
  from V have S: "1 \<le> arg_start a" and N: "1 \<le> arg_num a" by (rule validate_ok)+
  from S N long I have w: "ids = take (nat (arg_num a)) (drop (nat (arg_start a - 1)) listing)"
    by (simp only: slice_full(1))
  from S N long I have len: "length ids = nat (arg_num a)"
    by (simp only: slice_full(2))
  from N have W: "0 < max 10 (arg_num a)" by simp
  let ?w = "run_tasks e (future_to_id ids) (admitted e) (requests_get (STORIES (arg_mode a)) new_limiter)"
  have run: "\<exists>rep tr. main e a = (Printed rep, tr)
          \<and> length (rows (shown rep)) = nat (arg_num a)
          \<and> map fst (rows (shown rep)) = map (\<lambda>p. py_str (arg_start a + int p)) [0..<nat (arg_num a)]
          \<and> http_requests tr = STORIES (arg_mode a) # map (\<lambda>t. ITEM (ids ! t)) (admitted e)"
    if O: "answers_are_objects e ids"
  proof -
    from L I W C O obtain rep where
      g: "get_stories e (arg_mode a) (arg_num a) 10 (arg_start a) = (Inr rep, ?w)"
      and l: "length (rows (shown rep)) = length ids"
      and t: "progress_total rep = length ids"
      and k: "progress_ticks rep = length ids"
      and r0: "\<forall>p<length ids. \<exists>t index. t < length ids \<and> ids ! t = ids ! p
                  \<and> id_to_index ids (arg_start a) (ids ! p) = Some index
                  \<and> post_row index (ids ! p) (item_of e t (ids ! p)) = Inr (rows (shown rep) ! p)"
      and s0: "\<forall>p<length ids. \<forall>q<length ids. ids ! p = ids ! q \<longrightarrow>
                  rows (shown rep) ! p = rows (shown rep) ! q"
      by (rule get_stories_rows)
    note r = r0 [rule_format]
    from V g have m: "main e a = (Printed rep, trace ?w)" by (rule main_printed)
    from l len have l': "length (rows (shown rep)) = nat (arg_num a)" by simp
    have rk: "fst (rows (shown rep) ! p) = py_str (arg_start a + int p)" if p: "p < length ids" for p
    proof -
      from r [OF p] obtain t index where x: "id_to_index ids (arg_start a) (ids ! p) = Some index"
        and row: "post_row index (ids ! p) (item_of e t (ids ! p)) = Inr (rows (shown rep) ! p)"
        by (elim exE conjE)
      from D p have "id_to_index ids (arg_start a) (ids ! p) = Some (arg_start a + int p)"
        by (rule id_to_index_distinct)
      with x have "index = arg_start a + int p" by simp
      with row show ?thesis by (simp add: post_row_rank)
    qed
    have ranks: "map fst (rows (shown rep)) = map (\<lambda>p. py_str (arg_start a + int p)) [0..<nat (arg_num a)]"
    proof (rule nth_equalityI)
      show "length (map fst (rows (shown rep))) = length (map (\<lambda>p. py_str (arg_start a + int p)) [0..<nat (arg_num a)])"
        using l' by simp
    next
      fix i assume "i < length (map fst (rows (shown rep)))"
      with l len have i: "i < length ids" and i': "i < nat (arg_num a)" by simp_all
      from i l have "map fst (rows (shown rep)) ! i = fst (rows (shown rep) ! i)" by simp
      also from i have "\<dots> = py_str (arg_start a + int i)" by (rule rk)
      also from i' have "\<dots> = map (\<lambda>p. py_str (arg_start a + int p)) [0..<nat (arg_num a)] ! i" by simp
      finally show "map fst (rows (shown rep)) ! i = map (\<lambda>p. py_str (arg_start a + int p)) [0..<nat (arg_num a)] ! i" .
    qed
    from A have "set (admitted e) = {0..<length ids}" by (rule each_once_set)
    then have "\<forall>t\<in>set (admitted e). t < length ids" by simp
    then have "http_requests (trace ?w) =
        http_requests (trace (requests_get (STORIES (arg_mode a)) new_limiter)) @ map (\<lambda>t. ITEM (ids ! t)) (admitted e)"
      by (rule run_tasks_requests)
    then have req: "http_requests (trace ?w) = STORIES (arg_mode a) # map (\<lambda>t. ITEM (ids ! t)) (admitted e)"
      by (simp add: requests_get_def new_limiter_def)
    from m l' ranks req show ?thesis by (intro exI conjI)
  qed
  then have "answers_are_objects e ids \<longrightarrow>
        (\<exists>rep tr. main e a = (Printed rep, tr)
          \<and> length (rows (shown rep)) = nat (arg_num a)
          \<and> map fst (rows (shown rep)) = map (\<lambda>p. py_str (arg_start a + int p)) [0..<nat (arg_num a)]
          \<and> http_requests tr = STORIES (arg_mode a) # map (\<lambda>t. ITEM (ids ! t)) (admitted e))"
    by (rule impI)
  with w len show ?thesis by (intro conjI)
qed

text \<open>The theorem for the listing \<open>[101, 102, 103]\<close> with \<open>start = 1\<close> and \<open>num = 3\<close>.\<close>

theorem full_window_rows_in_rank_order_witness:
  "validate demo_args = None
   \<and> arg_start demo_args - 1 + arg_num demo_args \<le> int (length [101, 102, 103 :: int])
   \<and> distinct [101, 102, 103 :: int]
   \<and> answers_are_objects demo_env [101, 102, 103]
   \<and> [101, 102, 103] = take (nat (arg_num demo_args)) (drop (nat (arg_start demo_args - 1)) [101, 102, 103 :: int])
   \<and> length [101, 102, 103 :: int] = nat (arg_num demo_args)
   \<and> (\<exists>rep tr. main demo_env demo_args = (Printed rep, tr)
          \<and> length (rows (shown rep)) = nat (arg_num demo_args)
          \<and> map fst (rows (shown rep)) = map (\<lambda>p. py_str (arg_start demo_args + int p)) [0..<nat (arg_num demo_args)]
          \<and> http_requests tr = STORIES (arg_mode demo_args) # map (\<lambda>t. ITEM ([101, 102, 103] ! t)) (admitted demo_env))"
proof -
  have V: "validate demo_args = None" by (simp add: validate_def MODE_LIMITS_def demo_args_def)
  have L: "listing_of demo_env (STORIES (arg_mode demo_args)) = Inr [101, 102, 103]"
    by (simp add: demo_env_def)
  have I: "[101, 102, 103 :: int] =
      py_slice [101, 102, 103] (arg_start demo_args - 1) (arg_start demo_args - 1 + arg_num demo_args)"
    by (simp add: py_slice_def slice_bound_def demo_args_def)
  have long: "arg_start demo_args - 1 + arg_num demo_args \<le> int (length [101, 102, 103 :: int])"
    by (simp add: demo_args_def)
  have D: "distinct [101, 102, 103 :: int]" by simp
  have C: "each_once (length [101, 102, 103 :: int]) (completed demo_env)"
    by (simp add: each_once_def demo_env_def)
  have A: "each_once (length [101, 102, 103 :: int]) (admitted demo_env)"
    by (simp add: each_once_def demo_env_def)
  have O: "answers_are_objects demo_env [101, 102, 103]"
    by (simp add: answers_are_objects_def demo_env_def)
  note t = full_window_rows_in_rank_order [OF V L I long D C A]
  from t have a: "[101, 102, 103] = take (nat (arg_num demo_args)) (drop (nat (arg_start demo_args - 1)) [101, 102, 103 :: int])"
    by (rule conjunct1)
  from t [THEN conjunct2] have b: "length [101, 102, 103 :: int] = nat (arg_num demo_args)"
    by (rule conjunct1)
  from t [THEN conjunct2, THEN conjunct2] O
  have c: "\<exists>rep tr. main demo_env demo_args = (Printed rep, tr)
          \<and> length (rows (shown rep)) = nat (arg_num demo_args)
          \<and> map fst (rows (shown rep)) = map (\<lambda>p. py_str (arg_start demo_args + int p)) [0..<nat (arg_num demo_args)]
          \<and> http_requests tr = STORIES (arg_mode demo_args) # map (\<lambda>t. ITEM ([101, 102, 103] ! t)) (admitted demo_env)"
    by (rule mp)
  show ?thesis
    by (rule conjI [OF V conjI [OF long conjI [OF D conjI [OF O conjI [OF a conjI [OF b c]]]]]])
qed

text \<open>
  As stated, C1 fails in two ways. With \<open>num = 5\<close> and a listing of three ids, the
  arguments pass the checks and the table has three rows, not five. With the listing
  \<open>[7, 8, 7]\<close> and \<open>num = 3\<close>, the rows show the ranks 3, 2, 3, which do not ascend.
\<close>

theorem short_listing_counterexample:
  "validate \<lparr>arg_mode = ''top'', arg_start = 1, arg_num = 5\<rparr> = None
   \<and> fst (main demo_env \<lparr>arg_mode = ''top'', arg_start = 1, arg_num = 5\<rparr>) =
     Printed \<lparr>shown = \<lparr>columns = [''No.'', ''Title'', ''URL''],
       rows = [(''1'', Styled ''Story'' ''bold yellow'', Styled ''https://news.ycombinator.com/item?id=101'' ''blue underline''),
               (''2'', Plain ''<RATE LIMITED>'', Plain sob),
               (''3'', Styled ''Story'' ''bold yellow'', Styled ''https://news.ycombinator.com/item?id=103'' ''blue underline'')]\<rparr>,
       progress_total = 3, progress_ticks = 3, pool_size = 10\<rparr>
   \<and> validate demo_args = None
   \<and> fst (main dup_env demo_args) =
     Printed \<lparr>shown = \<lparr>columns = [''No.'', ''Title'', ''URL''],
       rows = [(''3'', Styled ''Story'' ''bold yellow'', Styled ''https://news.ycombinator.com/item?id=7'' ''blue underline''),
               (''2'', Styled ''Story'' ''bold yellow'', Styled ''https://news.ycombinator.com/item?id=8'' ''blue underline''),
               (''3'', Styled ''Story'' ''bold yellow'', Styled ''https://news.ycombinator.com/item?id=7'' ''blue underline'')]\<rparr>,
       progress_total = 3, progress_ticks = 3, pool_size = 10\<rparr>"
  by (simp add: main_def demo_args_def dup_env_def validate_def MODE_LIMITS_def get_stories_def resolve_ids_def demo_env_def
      py_slice_def slice_bound_def new_table_def
      id_to_index_def future_to_id_def post_row_def failed_row_def story_row_def get_or_def
      py_str_def str_nat_small str_nat_big digit_char_def Let_def)

section \<open>Titles and urls\<close>

text \<open>
  C6, as amended: for a fetched story, the title shown is \<open>"<no title>"\<close> when the field
  \<open>title\<close> is absent or empty and the field's value otherwise; the url shown is the
  permalink \<open>https://news.ycombinator.com/item?id={id}\<close> when the field \<open>url\<close> is absent
  or empty and the field's value otherwise.
\<close>

theorem story_fields_and_defaults:
  "post_row index i (Inr (Object s)) = Inr (story_row index i s)
   \<and> (title s = None \<or> title s = Some [] \<longrightarrow>
      fst (snd (story_row index i s)) = Styled ''<no title>'' ''bold yellow'')
   \<and> (\<forall>t. title s = Some t \<and> t \<noteq> [] \<longrightarrow>
      fst (snd (story_row index i s)) = Styled t ''bold yellow'')
   \<and> (url s = None \<or> url s = Some [] \<longrightarrow>
      snd (snd (story_row index i s)) =
        Styled (''https://news.ycombinator.com/item?id='' @ py_str i) ''blue underline'')
   \<and> (\<forall>u. url s = Some u \<and> u \<noteq> [] \<longrightarrow>
      snd (snd (story_row index i s)) = Styled u ''blue underline'')
   \<and> fst (story_row index i s) = py_str index"
  by (auto simp: post_row_def story_row_def get_or_def Let_def)

text \<open>The theorem for a story with a title and without a url.\<close>

theorem story_fields_and_defaults_witness:
  "title \<lparr>title = Some ''Story'', url = None\<rparr> = Some ''Story'' \<and> ''Story'' \<noteq> []
   \<and> url \<lparr>title = Some ''Story'', url = None\<rparr> = None
   \<and> post_row 1 101 (Inr (Object \<lparr>title = Some ''Story'', url = None\<rparr>))
       = Inr (story_row 1 101 \<lparr>title = Some ''Story'', url = None\<rparr>)
   \<and> fst (snd (story_row 1 101 \<lparr>title = Some ''Story'', url = None\<rparr>)) = Styled ''Story'' ''bold yellow''
   \<and> snd (snd (story_row 1 101 \<lparr>title = Some ''Story'', url = None\<rparr>)) =
        Styled (''https://news.ycombinator.com/item?id='' @ py_str 101) ''blue underline''"
  using story_fields_and_defaults [of 1 101 "\<lparr>title = Some ''Story'', url = None\<rparr>"]
  by simp

text \<open>
  As stated, C6 fails for a field that is present and empty: the empty title and the
  empty url are not shown, the defaults are.
\<close>

theorem empty_fields_counterexample:
  "title \<lparr>title = Some [], url = Some []\<rparr> = Some []
   \<and> url \<lparr>title = Some [], url = Some []\<rparr> = Some []
   \<and> post_row 1 101 (Inr (Object \<lparr>title = Some [], url = Some []\<rparr>)) =
       Inr (''1'', Styled ''<no title>'' ''bold yellow'',
            Styled ''https://news.ycombinator.com/item?id=101'' ''blue underline'')
   \<and> post_row 1 101 (Inr (Object \<lparr>title = Some [], url = Some []\<rparr>)) \<noteq>
       Inr (''1'', Styled [] ''bold yellow'', Styled [] ''blue underline'')"
  by (simp add: post_row_def story_row_def get_or_def py_str_def str_nat_small str_nat_big
      digit_char_def Let_def)

section \<open>Facts about the limiter's time stamps\<close>

lemma slept_append: "slept (xs @ ys) = slept xs + slept ys"
  by (induction xs rule: slept.induct) simp_all

lemma wrapper_gate_slept:
  "slept (trace (wrapper_gate e iv w)) - slept (trace w) = max 0 (iv - (clock e (reads w) - last_time w))"
  by (simp add: wrapper_gate_def time_time_def time_sleep_def Let_def slept_append)

lemma gate_spacing:
  assumes "clock_honours_sleep e iv w"
  shows "last_time w + iv \<le> last_time (wrapper_gate e iv w)"
proof -
  from assms have "clock e (reads w) + max 0 (iv - (clock e (reads w) - last_time w)) \<le> clock e (Suc (reads w))"
    by (simp only: clock_honours_sleep_def wrapper_gate_slept)
  then have "last_time w + iv \<le> clock e (Suc (reads w))" by (simp add: max_def split: if_splits)
  then show ?thesis by (simp only: wrapper_gate_last_time)
qed

lemma n_admissions:
  "(\<forall>k<N. clock_honours_sleep e iv ((wrapper_gate e iv ^^ k) w)) \<Longrightarrow>
   last_time w + real N * iv \<le> last_time ((wrapper_gate e iv ^^ N) w)"
proof (induction N)
  case 0
  show ?case by simp
next
  case (Suc N)
  from Suc.prems have "\<forall>k<N. clock_honours_sleep e iv ((wrapper_gate e iv ^^ k) w)" by simp
  then have a: "last_time w + real N * iv \<le> last_time ((wrapper_gate e iv ^^ N) w)" by (rule Suc.IH)
  from Suc.prems have "clock_honours_sleep e iv ((wrapper_gate e iv ^^ N) w)" by simp
  then have "last_time ((wrapper_gate e iv ^^ N) w) + iv \<le> last_time (wrapper_gate e iv ((wrapper_gate e iv ^^ N) w))"
    by (rule gate_spacing)
  with a show ?case by (simp add: algebra_simps)
qed

lemma get_article_stamp:
  "last_time (get_article_by_id e i w) = last_time (wrapper_gate e (rate_limit_interval 10) w)"
  by (simp add: get_article_by_id_def requests_get_def)

lemma admissions_Cons:
  "f2i t = Some i \<Longrightarrow>
   admissions e f2i (t # ts) w =
     last_time (get_article_by_id e i w) # admissions e f2i ts (get_article_by_id e i w)"
  by (simp add: admissions_def get_article_stamp)

lemma admissions_skip: "f2i t = None \<Longrightarrow> admissions e f2i (t # ts) w = admissions e f2i ts w"
  by (simp add: admissions_def)

lemma admissions_spaced:
  "(\<forall>v\<in>set (gate_worlds e f2i order w). clock_honours_sleep e (rate_limit_interval 10) v) \<Longrightarrow>
   spaced (rate_limit_interval 10) (last_time w # admissions e f2i order w)"
proof (induction order arbitrary: w)
  case Nil
  show ?case by (simp add: admissions_def)
next
  case (Cons t ts)
  show ?case
  proof (cases "f2i t")
    case None
    with Cons.prems have "\<forall>v\<in>set (gate_worlds e f2i ts w). clock_honours_sleep e (rate_limit_interval 10) v"
      by simp
    then have "spaced (rate_limit_interval 10) (last_time w # admissions e f2i ts w)" by (rule Cons.IH)
    with None show ?thesis by (simp only: admissions_skip)
  next
    case (Some i)
    let ?w = "get_article_by_id e i w"
    from Cons.prems Some have h: "clock_honours_sleep e (rate_limit_interval 10) w"
      and r: "\<forall>v\<in>set (gate_worlds e f2i ts ?w). clock_honours_sleep e (rate_limit_interval 10) v"
      by simp_all
    from h have "last_time w + rate_limit_interval 10 \<le> last_time (wrapper_gate e (rate_limit_interval 10) w)"
      by (rule gate_spacing)
    then have a: "last_time w + rate_limit_interval 10 \<le> last_time ?w" by (simp only: get_article_stamp)
    from r have b: "spaced (rate_limit_interval 10) (last_time ?w # admissions e f2i ts ?w)" by (rule Cons.IH)
    from a b have "spaced (rate_limit_interval 10) (last_time w # last_time ?w # admissions e f2i ts ?w)"
      by simp
    with Some show ?thesis by (simp only: admissions_Cons)
  qed
qed

lemma spaced_tail: "spaced iv (a # ts) \<Longrightarrow> spaced iv ts"
  by (cases ts) simp_all

lemma spaced_next: "spaced iv ts \<Longrightarrow> Suc i < length ts \<Longrightarrow> ts ! i + iv \<le> ts ! Suc i"
proof (induction iv ts arbitrary: i rule: spaced.induct)
  case (1 iv a b ts)
  then show ?case by (cases i) simp_all
qed simp_all

lemma spaced_span:
  "spaced iv ts \<Longrightarrow> i \<le> j \<Longrightarrow> j < length ts \<Longrightarrow> ts ! i + real (j - i) * iv \<le> ts ! j"
proof (induction j)
  case 0
  then show ?case by simp
next
  case (Suc j)
  show ?case
  proof (cases "i = Suc j")
    case True
    then show ?thesis by simp
  next
    case False
    with Suc.prems have ij: "i \<le> j" and j: "j < length ts" by simp_all
    from Suc.prems(1) ij j have a: "ts ! i + real (j - i) * iv \<le> ts ! j" by (rule Suc.IH)
    from Suc.prems have "ts ! j + iv \<le> ts ! Suc j" by (simp add: spaced_next)
    moreover from ij have "real (Suc j - i) = real (j - i) + 1" by (simp add: Suc_diff_le)
    ultimately show ?thesis using a by (simp add: algebra_simps)
  qed
qed

lemma run_tasks_last_time:
  "last_time (run_tasks e f2i order w) = last (last_time w # admissions e f2i order w)"
proof (induction order arbitrary: w)
  case Nil
  show ?case by (simp add: admissions_def)
next
  case (Cons t ts)
  show ?case
  proof (cases "f2i t")
    case None
    with Cons [of w] show ?thesis by (simp add: admissions_skip)
  next
    case (Some i)
    with Cons [of "get_article_by_id e i w"] show ?thesis by (simp add: admissions_Cons)
  qed
qed

lemma gate_worlds_snoc:
  "gate_worlds e f2i (ts @ [t]) w =
     gate_worlds e f2i ts w @ (case f2i t of None \<Rightarrow> [] | Some i \<Rightarrow> [run_tasks e f2i ts w])"
  by (induction ts arbitrary: w) (simp_all split: option.splits)

lemma admissions_length:
  "\<forall>t\<in>set order. t < length ids \<Longrightarrow> length (admissions e (future_to_id ids) order w) = length order"
proof (induction order arbitrary: w)
  case Nil
  show ?case by (simp add: admissions_def)
next
  case (Cons t ts)
  from Cons.prems have t: "t < length ids" and r: "\<forall>t\<in>set ts. t < length ids" by simp_all
  have "future_to_id ids t = (if t < length ids then Some (ids ! t) else None)" by (rule future_to_id_nth)
  with t have f: "future_to_id ids t = Some (ids ! t)" by simp
  from r have "length (admissions e (future_to_id ids) ts (get_article_by_id e (ids ! t) w)) = length ts"
    by (rule Cons.IH)
  with f show ?case by (simp add: admissions_Cons)
qed

section \<open>The spacing of admissions\<close>

text \<open>
  C7, for a limiter configured at a rate \<open>R > 0\<close> (at rate 0, \<^verbatim>\<open>1.0 / calls_per_sec\<close>
  raises), provided that the clock honours the sleeps of the gate:
  \<^item> a call is admitted no earlier than \<open>1 / R\<close> seconds after the time stamp of the call
    admitted before it;
  \<^item> \<open>N\<close> admissions one after the other end at least \<open>N / R\<close> seconds after the time stamp
    they found, so that between the first and the last of \<open>N + 1\<close> admissions at least
    \<open>N / R\<close> seconds pass;
  \<^item> in a run whose worker threads (at 10 calls per second) pass the gate in any order
    whatever, the lock admitting one at a time, consecutive admissions are at least
    \<open>1 / 10\<close> seconds apart, so that any \<open>k + 1\<close> admissions, from the \<open>i\<close>-th to the
    \<open>(i + k)\<close>-th, span at least \<open>k / 10\<close> seconds: the rate of admission never exceeds
    10 per second. The limiter's cell ends at the last admission's time stamp.
\<close>

theorem admissions_are_at_least_an_interval_apart:
  assumes R: "0 < R"
  shows "(clock_honours_sleep e (rate_limit_interval R) w \<longrightarrow>
            last_time w + 1 / R \<le> last_time (wrapper_gate e (rate_limit_interval R) w))
     \<and> ((\<forall>k<N. clock_honours_sleep e (rate_limit_interval R) ((wrapper_gate e (rate_limit_interval R) ^^ k) w)) \<longrightarrow>
            last_time w + real N / R \<le> last_time ((wrapper_gate e (rate_limit_interval R) ^^ N) w))
     \<and> ((\<forall>k<N. clock_honours_sleep e (rate_limit_interval R) ((wrapper_gate e (rate_limit_interval R) ^^ Suc k) w)) \<longrightarrow>
            last_time (wrapper_gate e (rate_limit_interval R) w) + real N / R
              \<le> last_time ((wrapper_gate e (rate_limit_interval R) ^^ Suc N) w))
     \<and> ((\<forall>v\<in>set (gate_worlds e f2i order w). clock_honours_sleep e (rate_limit_interval 10) v) \<longrightarrow>
            spaced (1 / 10) (last_time w # admissions e f2i order w)
          \<and> (\<forall>i j. i \<le> j \<and> j < length (admissions e f2i order w) \<longrightarrow>
               admissions e f2i order w ! i + real (j - i) / 10 \<le> admissions e f2i order w ! j)
          \<and> last_time (run_tasks e f2i order w) = last (last_time w # admissions e f2i order w))"
proof -
  let ?iv = "rate_limit_interval R"
  have iv: "?iv = 1 / R" by (simp add: rate_limit_interval_def)
  have ten: "rate_limit_interval 10 = 1 / 10" by (simp add: rate_limit_interval_def)
  have one: "clock_honours_sleep e ?iv w \<longrightarrow> last_time w + 1 / R \<le> last_time (wrapper_gate e ?iv w)"
  proof
    assume "clock_honours_sleep e ?iv w"
    then have "last_time w + ?iv \<le> last_time (wrapper_gate e ?iv w)" by (rule gate_spacing)
    then show "last_time w + 1 / R \<le> last_time (wrapper_gate e ?iv w)" by (simp only: iv)
  qed
  have many: "(\<forall>k<N. clock_honours_sleep e ?iv ((wrapper_gate e ?iv ^^ k) w)) \<longrightarrow>
            last_time w + real N / R \<le> last_time ((wrapper_gate e ?iv ^^ N) w)"
  proof
    assume "\<forall>k<N. clock_honours_sleep e ?iv ((wrapper_gate e ?iv ^^ k) w)"
    then have "last_time w + real N * ?iv \<le> last_time ((wrapper_gate e ?iv ^^ N) w)"
      by (rule n_admissions)
    then show "last_time w + real N / R \<le> last_time ((wrapper_gate e ?iv ^^ N) w)"
      by (simp add: rate_limit_interval_def)
  qed
  have span: "(\<forall>k<N. clock_honours_sleep e ?iv ((wrapper_gate e ?iv ^^ Suc k) w)) \<longrightarrow>
            last_time (wrapper_gate e ?iv w) + real N / R \<le> last_time ((wrapper_gate e ?iv ^^ Suc N) w)"
  proof
    assume "\<forall>k<N. clock_honours_sleep e ?iv ((wrapper_gate e ?iv ^^ Suc k) w)"
    then have "\<forall>k<N. clock_honours_sleep e ?iv ((wrapper_gate e ?iv ^^ k) (wrapper_gate e ?iv w))"
      by (simp only: funpow_Suc_right o_apply)
    then have "last_time (wrapper_gate e ?iv w) + real N * ?iv
        \<le> last_time ((wrapper_gate e ?iv ^^ N) (wrapper_gate e ?iv w))"
      by (rule n_admissions)
    then show "last_time (wrapper_gate e ?iv w) + real N / R \<le> last_time ((wrapper_gate e ?iv ^^ Suc N) w)"
      by (simp add: rate_limit_interval_def funpow_swap1)
  qed
  have run: "(\<forall>v\<in>set (gate_worlds e f2i order w). clock_honours_sleep e (rate_limit_interval 10) v) \<longrightarrow>
            spaced (1 / 10) (last_time w # admissions e f2i order w)
          \<and> (\<forall>i j. i \<le> j \<and> j < length (admissions e f2i order w) \<longrightarrow>
               admissions e f2i order w ! i + real (j - i) / 10 \<le> admissions e f2i order w ! j)
          \<and> last_time (run_tasks e f2i order w) = last (last_time w # admissions e f2i order w)"
  proof
    assume "\<forall>v\<in>set (gate_worlds e f2i order w). clock_honours_sleep e (rate_limit_interval 10) v"
    then have "spaced (rate_limit_interval 10) (last_time w # admissions e f2i order w)"
      by (rule admissions_spaced)
    then have s: "spaced (1 / 10) (last_time w # admissions e f2i order w)" by (simp only: ten)
    then have s': "spaced (1 / 10) (admissions e f2i order w)" by (rule spaced_tail)
    have sp: "\<forall>i j. i \<le> j \<and> j < length (admissions e f2i order w) \<longrightarrow>
               admissions e f2i order w ! i + real (j - i) / 10 \<le> admissions e f2i order w ! j"
    proof (intro allI impI, elim conjE)
      fix i j assume "i \<le> j" and "j < length (admissions e f2i order w)"
      with s' have "admissions e f2i order w ! i + real (j - i) * (1 / 10) \<le> admissions e f2i order w ! j"
        by (rule spaced_span)
      then show "admissions e f2i order w ! i + real (j - i) / 10 \<le> admissions e f2i order w ! j" by simp
    qed
    have l: "last_time (run_tasks e f2i order w) = last (last_time w # admissions e f2i order w)"
      by (rule run_tasks_last_time)
    from s sp l show "spaced (1 / 10) (last_time w # admissions e f2i order w)
          \<and> (\<forall>i j. i \<le> j \<and> j < length (admissions e f2i order w) \<longrightarrow>
               admissions e f2i order w ! i + real (j - i) / 10 \<le> admissions e f2i order w ! j)
          \<and> last_time (run_tasks e f2i order w) = last (last_time w # admissions e f2i order w)"
      by (intro conjI)
  qed
  from one many span run show ?thesis by (intro conjI)
qed

text \<open>
  The theorem at 10 calls per second on a clock that honours the sleeps: after a first
  admission at 1000.01, two further admissions, and the three workers of a run admitted
  in the order 2, 0, 1.
\<close>

theorem admissions_are_at_least_an_interval_apart_witness:
  "(0::real) < 10
   \<and> clock_honours_sleep steady_env (rate_limit_interval 10)
        (wrapper_gate steady_env (rate_limit_interval 10) new_limiter)
   \<and> clock_honours_sleep steady_env (rate_limit_interval 10)
        (wrapper_gate steady_env (rate_limit_interval 10) (wrapper_gate steady_env (rate_limit_interval 10) new_limiter))
   \<and> last_time (wrapper_gate steady_env (rate_limit_interval 10) new_limiter) = 100001 / 100
   \<and> last_time (wrapper_gate steady_env (rate_limit_interval 10) new_limiter) + 1 / 10
        \<le> last_time (wrapper_gate steady_env (rate_limit_interval 10)
             (wrapper_gate steady_env (rate_limit_interval 10) new_limiter))
   \<and> last_time (wrapper_gate steady_env (rate_limit_interval 10) new_limiter) + real 2 / 10
        \<le> last_time ((wrapper_gate steady_env (rate_limit_interval 10) ^^ 2)
             (wrapper_gate steady_env (rate_limit_interval 10) new_limiter))
   \<and> length (admissions steady_env (future_to_id [101, 102, 103]) (admitted steady_env)
        (requests_get (STORIES ''top'') new_limiter)) = 3
   \<and> spaced (1 / 10) (last_time (requests_get (STORIES ''top'') new_limiter) #
        admissions steady_env (future_to_id [101, 102, 103]) (admitted steady_env)
          (requests_get (STORIES ''top'') new_limiter))
   \<and> admissions steady_env (future_to_id [101, 102, 103]) (admitted steady_env)
          (requests_get (STORIES ''top'') new_limiter) ! 0 + real (2 - 0) / 10
        \<le> admissions steady_env (future_to_id [101, 102, 103]) (admitted steady_env)
          (requests_get (STORIES ''top'') new_limiter) ! 2"
proof -
  let ?iv = "rate_limit_interval 10"
  let ?g = "wrapper_gate steady_env ?iv"
  let ?w0 = "requests_get (STORIES ''top'') new_limiter"
  let ?f = "future_to_id [101, 102, 103]"
  let ?adm = "admissions steady_env ?f (admitted steady_env) ?w0"
  have R: "(0::real) < 10" by simp
  have ck: "clock steady_env k = 1000 + real (k div 2) / 10 + real (k mod 2) / 100" for k
    by (simp add: steady_env_def)
  have nl: "reads new_limiter = 0" "last_time new_limiter = 0" "trace new_limiter = []"
    by (simp_all add: new_limiter_def)
  have ev: "last_time (?g new_limiter) = 100001 / 100"
    by (simp add: wrapper_gate_last_time nl ck)
  have h1: "clock_honours_sleep steady_env ?iv (?g new_limiter)"
    by (simp add: clock_honours_sleep_def wrapper_gate_slept wrapper_gate_reads wrapper_gate_last_time
        nl ck rate_limit_interval_def)
  have h2: "clock_honours_sleep steady_env ?iv (?g (?g new_limiter))"
    by (simp add: clock_honours_sleep_def wrapper_gate_slept wrapper_gate_reads wrapper_gate_last_time
        nl ck rate_limit_interval_def)
  have hs: "\<forall>k<2. clock_honours_sleep steady_env ?iv ((?g ^^ k) (?g new_limiter))"
  proof (intro allI impI)
    fix k :: nat assume "k < 2"
    then have "k = 0 \<or> k = 1" by auto
    with h1 h2 show "clock_honours_sleep steady_env ?iv ((?g ^^ k) (?g new_limiter))" by auto
  qed
  note t = admissions_are_at_least_an_interval_apart [OF R, of steady_env "?g new_limiter" 2]
  from t [THEN conjunct1] h1
  have a: "last_time (?g new_limiter) + 1 / 10 \<le> last_time (?g (?g new_limiter))" by (rule mp)
  from t [THEN conjunct2, THEN conjunct1] hs
  have b: "last_time (?g new_limiter) + real 2 / 10 \<le> last_time ((?g ^^ 2) (?g new_limiter))"
    by (rule mp)
  have f: "?f 0 = Some 101" "?f (Suc 0) = Some 102" "?f 2 = Some 103"
    by (simp_all add: future_to_id_nth)
  have adm: "admitted steady_env = [2, 0, 1]" by (simp add: steady_env_def)
  have len: "length ?adm = 3"
    by (simp add: admissions_length adm)
  have rw: "reads ?w0 = 0" "last_time ?w0 = 0"
    by (simp_all add: requests_get_def new_limiter_def)
  have hw: "\<forall>v\<in>set (gate_worlds steady_env ?f (admitted steady_env) ?w0).
      clock_honours_sleep steady_env (rate_limit_interval 10) v"
    by (simp add: adm f clock_honours_sleep_def wrapper_gate_slept get_article_reads
        get_article_last_time rw ck rate_limit_interval_def)
  note u = admissions_are_at_least_an_interval_apart [OF R, of steady_env ?w0 _ ?f
      "admitted steady_env", THEN conjunct2, THEN conjunct2, THEN conjunct2]
  from u hw have v: "spaced (1 / 10) (last_time ?w0 # ?adm)
          \<and> (\<forall>i j. i \<le> j \<and> j < length ?adm \<longrightarrow> ?adm ! i + real (j - i) / 10 \<le> ?adm ! j)
          \<and> last_time (run_tasks steady_env ?f (admitted steady_env) ?w0) = last (last_time ?w0 # ?adm)"
    by (rule mp)
  from v have c: "spaced (1 / 10) (last_time ?w0 # ?adm)" by (rule conjunct1)
  from v [THEN conjunct2, THEN conjunct1] have "(0::nat) \<le> 2 \<and> 2 < length ?adm \<longrightarrow> ?adm ! 0 + real (2 - 0) / 10 \<le> ?adm ! 2"
    by (elim allE)
  moreover from len have "(0::nat) \<le> 2 \<and> 2 < length ?adm" by simp
  ultimately have d: "?adm ! 0 + real (2 - 0) / 10 \<le> ?adm ! 2" by (rule mp)
  show ?thesis
    by (rule conjI [OF R conjI [OF h1 conjI [OF h2 conjI [OF ev conjI [OF a conjI [OF b conjI [OF len conjI [OF c d]]]]]]]])
qed

end
